theory Spec2Isabelle
  imports Main "HOL-Library.List_Lexorder"
begin

section \<open>Text model\<close>

text \<open>
  A Python \<open>str\<close> is a sequence of Unicode code points; it is modelled as a list of
  natural numbers, one per code point. \<open>ustr\<close> turns an ASCII literal into such a list.
  What the \<open>re\<close> module and \<open>str.strip\<close> need to know about a character beyond ASCII
  (is it a decimal digit, is it alphanumeric) is a parameter of the model, the record
  \<open>unicode\<close>; the ASCII range and the white space set are written out.
\<close>

type_synonym ustr = "nat list"

definition ustr :: "string \<Rightarrow> ustr" where
  "ustr s = map of_char s"

record unicode =
  uni_decimal :: "nat \<Rightarrow> bool"
  uni_alnum :: "nat \<Rightarrow> bool"

definition ascii_only :: unicode where
  "ascii_only = \<lparr>uni_decimal = (\<lambda>c. False), uni_alnum = (\<lambda>c. False)\<rparr>"

text \<open>\<open>\d\<close> of a \<open>str\<close> pattern: a Unicode decimal digit.\<close>

definition is_digit :: "unicode \<Rightarrow> nat \<Rightarrow> bool" where
  "is_digit U c = (if c < 128 then 48 \<le> c \<and> c \<le> 57 else uni_decimal U c)"

text \<open>\<open>\w\<close> of a \<open>str\<close> pattern: alphanumeric or the underscore.\<close>

definition is_word :: "unicode \<Rightarrow> nat \<Rightarrow> bool" where
  "is_word U c =
     (if c < 128
      then (48 \<le> c \<and> c \<le> 57) \<or> (65 \<le> c \<and> c \<le> 90) \<or> (97 \<le> c \<and> c \<le> 122) \<or> c = 95
      else uni_alnum U c \<or> uni_decimal U c)"

text \<open>White space as \<open>str.strip\<close>, \<open>str.isspace\<close> and \<open>\s\<close> see it.\<close>

definition is_space :: "nat \<Rightarrow> bool" where
  "is_space c =
     ((9 \<le> c \<and> c \<le> 13) \<or> (28 \<le> c \<and> c \<le> 32) \<or> c = 133 \<or> c = 160 \<or> c = 5760
      \<or> (8192 \<le> c \<and> c \<le> 8202) \<or> c = 8232 \<or> c = 8233 \<or> c = 8239 \<or> c = 8287
      \<or> c = 12288)"

text \<open>\<open>s.strip()\<close>\<close>

definition strip :: "ustr \<Rightarrow> ustr" where
  "strip s = rev (dropWhile is_space (rev (dropWhile is_space s)))"

text \<open>\<open>s.split('\n')\<close>: always at least one piece.\<close>

fun split_nl :: "ustr \<Rightarrow> ustr list" where
  "split_nl [] = [] # []"
| "split_nl (c # cs) =
     (if c = 10 then [] # split_nl cs
      else (case split_nl cs of [] \<Rightarrow> [c] # [] | l # ls \<Rightarrow> (c # l) # ls))"

text \<open>\<open>'\n'.join(xs)\<close>\<close>

fun join_nl :: "ustr list \<Rightarrow> ustr" where
  "join_nl [] = []"
| "join_nl [x] = x"
| "join_nl (x # y # ys) = x @ [10] @ join_nl (y # ys)"

text \<open>\<open>s.startswith(p)\<close>\<close>

fun startswith :: "ustr \<Rightarrow> ustr \<Rightarrow> bool" where
  "startswith s [] = True"
| "startswith [] (p # ps) = False"
| "startswith (c # cs) (p # ps) = (c = p \<and> startswith cs ps)"

text \<open>\<open>p in s\<close> for strings.\<close>

fun contains :: "ustr \<Rightarrow> ustr \<Rightarrow> bool" where
  "contains [] p = (p = [])"
| "contains (c # cs) p = (startswith (c # cs) p \<or> contains cs p)"

text \<open>\<open>str(n)\<close> for a non-negative integer.\<close>

fun str_of_nat :: "nat \<Rightarrow> ustr" where
  "str_of_nat n = (if n < 10 then [48 + n] else str_of_nat (n div 10) @ [48 + n mod 10])"

declare str_of_nat.simps [simp del]

section \<open>Check results and the aggregator\<close>

record CheckResult =
  name :: ustr
  kind :: ustr
  passed :: bool
  issues :: "ustr list"
  warnings :: "ustr list"

text \<open>\<open>CheckResult(name)\<close>, \<open>r.fail(msg)\<close>, \<open>r.warn(msg)\<close>\<close>

definition new_result :: "ustr \<Rightarrow> ustr \<Rightarrow> CheckResult" where
  "new_result n k = \<lparr>name = n, kind = k, passed = True, issues = [], warnings = []\<rparr>"

definition fail :: "CheckResult \<Rightarrow> ustr \<Rightarrow> CheckResult" where
  "fail r msg = r\<lparr>passed := False, issues := issues r @ [msg]\<rparr>"

definition warn :: "CheckResult \<Rightarrow> ustr \<Rightarrow> CheckResult" where
  "warn r msg = r\<lparr>warnings := warnings r @ [msg]\<rparr>"

record detail =
  d_passed :: bool
  d_issues :: "ustr list"
  d_warnings :: "ustr list"

record report =
  hard_pass :: "ustr list"
  hard_fail :: "ustr list"
  soft_warn :: "ustr list"
  overall :: ustr
  details :: "ustr \<rightharpoonup> detail"

definition add_detail :: "(ustr \<rightharpoonup> detail) \<Rightarrow> CheckResult \<Rightarrow> (ustr \<rightharpoonup> detail)" where
  "add_detail d r =
     d(name r \<mapsto> \<lparr>d_passed = passed r, d_issues = issues r, d_warnings = warnings r\<rparr>)"

definition run_gate_a :: "CheckResult list \<Rightarrow> CheckResult list \<Rightarrow> report" where
  "run_gate_a hard_results soft_results =
     (let hp = [name r. r \<leftarrow> hard_results, passed r];
          hf = [name r. r \<leftarrow> hard_results, \<not> passed r];
          sw = [name r. r \<leftarrow> soft_results, warnings r \<noteq> []];
          ds = foldl add_detail Map.empty (hard_results @ soft_results);
          ov = (if hf \<noteq> [] then ustr ''FAIL''
                else if sw \<noteq> [] then ustr ''WARN''
                else ustr ''PASS'')
      in \<lparr>hard_pass = hp, hard_fail = hf, soft_warn = sw, overall = ov, details = ds\<rparr>)"

section \<open>Regular expressions of the identifier extractor\<close>

text \<open>
  A position in a text is given by the character before it (if any), the text from
  there on, and its offset. The patterns are matched as Python's backtracking matcher
  does: a greedy repetition offers its ends longest first, and what follows takes the
  first one that lets the rest of the pattern match.
\<close>

text \<open>\<open>\b\<close>: exactly one of the two neighbours is a word character.\<close>

definition word_boundary :: "unicode \<Rightarrow> nat option \<Rightarrow> ustr \<Rightarrow> bool" where
  "word_boundary U prev rest =
     ((case prev of None \<Rightarrow> False | Some c \<Rightarrow> is_word U c)
        \<noteq> (case rest of [] \<Rightarrow> False | c # cs \<Rightarrow> is_word U c))"

text \<open>
  The ways a greedy \<open>P*\<close> can split the text into what it takes and what it leaves,
  in the order the matcher tries them.
\<close>

fun greedy_splits :: "(nat \<Rightarrow> bool) \<Rightarrow> ustr \<Rightarrow> (ustr \<times> ustr) list" where
  "greedy_splits P [] = [([], [])]"
| "greedy_splits P (c # cs) =
     (if P c then map (\<lambda>(t, r). (c # t, r)) (greedy_splits P cs) @ [([], c # cs)]
      else [([], c # cs)])"

text \<open>What is left of the text after the literal \<open>p\<close>, if the text starts with it.\<close>

fun after_literal :: "ustr \<Rightarrow> ustr \<Rightarrow> ustr option" where
  "after_literal [] s = Some s"
| "after_literal (p # ps) [] = None"
| "after_literal (p # ps) (c # cs) = (if p = c then after_literal ps cs else None)"

fun first_some :: "('a \<Rightarrow> 'b option) \<Rightarrow> 'a list \<Rightarrow> 'b option" where
  "first_some f [] = None"
| "first_some f (x # xs) = (case f x of None \<Rightarrow> first_some f xs | Some y \<Rightarrow> Some y)"

text \<open>A match object: \<open>m.start()\<close>, \<open>m.end()\<close>, \<open>m.group(1)\<close>, \<open>m.group(2)\<close>.\<close>

record rmatch =
  m_start :: nat
  m_end :: nat
  group1 :: ustr
  group2 :: ustr

text \<open>\<open>(\d{3,})\b\<close>: the digits taken and the text left.\<close>

definition digits_boundary :: "unicode \<Rightarrow> ustr \<times> ustr \<Rightarrow> bool" where
  "digits_boundary U tr = (3 \<le> length (fst tr) \<and> word_boundary U (Some (last (fst tr))) (snd tr))"

definition digits_tail :: "unicode \<Rightarrow> ustr \<Rightarrow> (ustr \<times> ustr) option" where
  "digits_tail U rest = find (digits_boundary U) (greedy_splits (is_digit U) rest)"

definition ID_KINDS :: "ustr list" where
  "ID_KINDS = [ustr ''HR'', ustr ''DEC'', ustr ''REQ'', ustr ''SCN'', ustr ''CHG'', ustr ''EVD'']"

text \<open>One alternative \<open>k\<close> of \<open>(HR|DEC|REQ|SCN|CHG|EVD)\<close>, then \<open>-(\d{3,})\b\<close>.\<close>

definition try_kind :: "unicode \<Rightarrow> ustr \<Rightarrow> nat \<Rightarrow> ustr \<Rightarrow> rmatch option" where
  "try_kind U rest i k =
     (case after_literal (k @ ustr ''-'') rest of
        None \<Rightarrow> None
      | Some r \<Rightarrow>
          (case digits_tail U r of
             None \<Rightarrow> None
           | Some (d, r') \<Rightarrow>
               Some \<lparr>m_start = i, m_end = i + length k + 1 + length d, group1 = k, group2 = d\<rparr>))"

text \<open>\<open>ID_PATTERN = \b(HR|DEC|REQ|SCN|CHG|EVD)-(\d{3,})\b\<close> tried at offset \<open>i\<close>.\<close>

definition ID_PATTERN_at :: "unicode \<Rightarrow> nat option \<Rightarrow> ustr \<Rightarrow> nat \<Rightarrow> rmatch option" where
  "ID_PATTERN_at U prev rest i =
     (if word_boundary U prev rest then first_some (try_kind U rest i) ID_KINDS else None)"

definition is_upper :: "nat \<Rightarrow> bool" where
  "is_upper c = (65 \<le> c \<and> c \<le> 90)"

text \<open>After \<open>[A-Z]+\<close> took \<open>t\<close> and left \<open>r\<close>: \<open>-HR-(\d{3,})\b\<close>.\<close>

definition try_domain :: "unicode \<Rightarrow> nat \<Rightarrow> ustr \<times> ustr \<Rightarrow> rmatch option" where
  "try_domain U i tr =
     (if 1 \<le> length (fst tr)
      then (case after_literal (ustr ''-HR-'') (snd tr) of
              None \<Rightarrow> None
            | Some r \<Rightarrow>
                (case digits_tail U r of
                   None \<Rightarrow> None
                 | Some (d, r') \<Rightarrow>
                     Some \<lparr>m_start = i, m_end = i + length (fst tr) + 4 + length d,
                           group1 = fst tr, group2 = d\<rparr>))
      else None)"

text \<open>\<open>DOMAIN_HR_PATTERN = \b([A-Z]+)-HR-(\d{3,})\b\<close> tried at offset \<open>i\<close>.\<close>

definition DOMAIN_HR_PATTERN_at :: "unicode \<Rightarrow> nat option \<Rightarrow> ustr \<Rightarrow> nat \<Rightarrow> rmatch option" where
  "DOMAIN_HR_PATTERN_at U prev rest i =
     (if word_boundary U prev rest
      then first_some (try_domain U i) (greedy_splits is_upper rest)
      else None)"

text \<open>
  \<open>pattern.finditer(s)\<close>: the leftmost match, then the search goes on where it ended;
  \<open>skip\<close> counts the characters of the last match still to pass. No pattern of this
  program matches the empty string.
\<close>

fun finditer_from ::
  "(nat option \<Rightarrow> ustr \<Rightarrow> nat \<Rightarrow> rmatch option) \<Rightarrow> nat option \<Rightarrow> ustr \<Rightarrow> nat \<Rightarrow> nat \<Rightarrow> rmatch list"
where
  "finditer_from p prev [] i skip =
     (if 0 < skip then []
      else (case p prev [] i of None \<Rightarrow> [] | Some m \<Rightarrow> [m]))"
| "finditer_from p prev (c # cs) i skip =
     (if 0 < skip then finditer_from p (Some c) cs (Suc i) (skip - 1)
      else (case p prev (c # cs) i of
              None \<Rightarrow> finditer_from p (Some c) cs (Suc i) 0
            | Some m \<Rightarrow> m # finditer_from p (Some c) cs (Suc i) (m_end m - i - 1)))"

definition finditer :: "(nat option \<Rightarrow> ustr \<Rightarrow> nat \<Rightarrow> rmatch option) \<Rightarrow> ustr \<Rightarrow> rmatch list" where
  "finditer p s = finditer_from p None s 0 0"

text \<open>The character before the position that follows \<open>pre\<close>.\<close>

definition last_opt :: "ustr \<Rightarrow> nat option" where
  "last_opt pre = (if pre = [] then None else Some (last pre))"

section \<open>Identifier extraction\<close>

definition span_of :: "rmatch \<Rightarrow> nat \<times> nat" where
  "span_of m = (m_start m, m_end m)"

text \<open>\<open>_domain_hr_spans\<close>\<close>

definition domain_hr_spans :: "unicode \<Rightarrow> ustr \<Rightarrow> (nat \<times> nat) set" where
  "domain_hr_spans U text = set (map span_of (finditer (DOMAIN_HR_PATTERN_at U) text))"

text \<open>\<open>_is_inside_domain_hr\<close>\<close>

definition is_inside_domain_hr :: "nat \<Rightarrow> nat \<Rightarrow> (nat \<times> nat) set \<Rightarrow> bool" where
  "is_inside_domain_hr pos end spans = (\<exists>(s, e) \<in> spans. s \<le> pos \<and> end \<le> e)"

text \<open>\<open>f"{m.group(1)}-{m.group(2)}"\<close> and \<open>f"{m.group(1)}-HR-{m.group(2)}"\<close>\<close>

definition generic_id :: "rmatch \<Rightarrow> ustr" where
  "generic_id m = group1 m @ ustr ''-'' @ group2 m"

definition domain_id :: "rmatch \<Rightarrow> ustr" where
  "domain_id m = group1 m @ ustr ''-HR-'' @ group2 m"

text \<open>The bodies of the first and of the second loop of \<open>extract_ids\<close>.\<close>

definition add_generic :: "(nat \<times> nat) set \<Rightarrow> rmatch \<Rightarrow> ustr set \<Rightarrow> ustr set" where
  "add_generic domain_spans m ids =
     (if \<not> is_inside_domain_hr (m_start m) (m_end m) domain_spans
      then insert (generic_id m) ids else ids)"

definition add_domain :: "rmatch \<Rightarrow> ustr set \<Rightarrow> ustr set" where
  "add_domain m ids = insert (domain_id m) ids"

text \<open>\<open>extract_ids\<close>\<close>

definition extract_ids :: "unicode \<Rightarrow> ustr \<Rightarrow> ustr set" where
  "extract_ids U text =
     (let ids = {};
          domain_spans = domain_hr_spans U text;
          ids = fold (add_generic domain_spans) (finditer (ID_PATTERN_at U) text) ids;
          ids = fold add_domain (finditer (DOMAIN_HR_PATTERN_at U) text) ids
      in ids)"

text \<open>\<open>[-*>#\d.]\<close>\<close>

definition marker_char :: "unicode \<Rightarrow> nat \<Rightarrow> bool" where
  "marker_char U c = (c = 45 \<or> c = 42 \<or> c = 62 \<or> c = 35 \<or> is_digit U c \<or> c = 46)"

text \<open>After \<open>\s*\<close> left \<open>r\<close>: the escaped \<open>full_id\<close>, read literally.\<close>

definition literal_follows :: "ustr \<Rightarrow> ustr \<times> ustr \<Rightarrow> bool" where
  "literal_follows full_id wr = startswith (snd wr) full_id"

text \<open>After \<open>[-*>#\d.]+\<close> took \<open>t\<close> and left \<open>r\<close>: \<open>\s*\<close> and \<open>full_id\<close>.\<close>

definition marker_then_id :: "ustr \<Rightarrow> ustr \<times> ustr \<Rightarrow> bool" where
  "marker_then_id full_id tr =
     (1 \<le> length (fst tr) \<and> list_ex (literal_follows full_id) (greedy_splits is_space (snd tr)))"

text \<open>\<open>re.match(r'^[-*>#\d.]+\s*' + re.escape(full_id), stripped)\<close>\<close>

definition after_marker :: "unicode \<Rightarrow> ustr \<Rightarrow> ustr \<Rightarrow> bool" where
  "after_marker U stripped full_id =
     list_ex (marker_then_id full_id) (greedy_splits (marker_char U) stripped)"

text \<open>\<open>re.match(r'^\|\s*' + re.escape(full_id), stripped)\<close>\<close>

definition in_table_cell :: "ustr \<Rightarrow> ustr \<Rightarrow> bool" where
  "in_table_cell stripped full_id =
     (case stripped of
        [] \<Rightarrow> False
      | c # cs \<Rightarrow> c = 124 \<and> list_ex (literal_follows full_id) (greedy_splits is_space cs))"

text \<open>The condition under which \<open>extract_defined_ids\<close> adds \<open>full_id\<close> to \<open>defined\<close>.\<close>

definition is_definition :: "unicode \<Rightarrow> ustr \<Rightarrow> ustr \<Rightarrow> bool" where
  "is_definition U stripped full_id =
     (startswith stripped full_id \<or> after_marker U stripped full_id
      \<or> in_table_cell stripped full_id)"

text \<open>What each inner loop of \<open>extract_defined_ids\<close> does with \<open>full_id\<close>.\<close>

definition record_id :: "unicode \<Rightarrow> ustr \<Rightarrow> ustr \<Rightarrow> ustr set \<times> ustr set \<Rightarrow> ustr set \<times> ustr set" where
  "record_id U stripped full_id acc =
     (let defined = fst acc; all_ids = snd acc;
          all_ids = insert full_id all_ids;
          defined = (if is_definition U stripped full_id then insert full_id defined else defined)
      in (defined, all_ids))"

definition generic_defined ::
  "unicode \<Rightarrow> ustr \<Rightarrow> (nat \<times> nat) set \<Rightarrow> rmatch \<Rightarrow> ustr set \<times> ustr set \<Rightarrow> ustr set \<times> ustr set"
where
  "generic_defined U stripped domain_spans m acc =
     (if is_inside_domain_hr (m_start m) (m_end m) domain_spans then acc
      else record_id U stripped (generic_id m) acc)"

definition domain_defined :: "unicode \<Rightarrow> ustr \<Rightarrow> rmatch \<Rightarrow> ustr set \<times> ustr set \<Rightarrow> ustr set \<times> ustr set" where
  "domain_defined U stripped m acc = record_id U stripped (domain_id m) acc"

text \<open>The body of the loop over the lines in \<open>extract_defined_ids\<close>.\<close>

definition defined_ids_line :: "unicode \<Rightarrow> ustr \<Rightarrow> ustr set \<times> ustr set \<Rightarrow> ustr set \<times> ustr set" where
  "defined_ids_line U line acc =
     (let stripped = strip line;
          domain_spans = domain_hr_spans U stripped;
          acc = fold (generic_defined U stripped domain_spans)
                     (finditer (ID_PATTERN_at U) stripped) acc;
          acc = fold (domain_defined U stripped) (finditer (DOMAIN_HR_PATTERN_at U) stripped) acc
      in acc)"

text \<open>\<open>extract_defined_ids\<close>: the pair \<open>(defined, all_ids)\<close>.\<close>

definition extract_defined_ids :: "unicode \<Rightarrow> ustr \<Rightarrow> ustr set \<times> ustr set" where
  "extract_defined_ids U text = fold (defined_ids_line U) (split_nl text) ({}, {})"

section \<open>Check 2: identifier integrity\<close>

text \<open>
  \<open>id_def_count\<close> is a dictionary read back in insertion order: an association list,
  a new key appended at the end.
  \<open>id_def_count[k] = id_def_count.get(k, 0) + 1\<close>
\<close>

fun dict_bump :: "(ustr \<times> nat) list \<Rightarrow> ustr \<Rightarrow> (ustr \<times> nat) list" where
  "dict_bump [] k = [(k, 1)]"
| "dict_bump ((k', n) # d) k = (if k' = k then (k', n + 1) # d else (k', n) # dict_bump d k)"

text \<open>The bodies of the first and of the second inner loop that count definitions.\<close>

definition generic_count ::
  "ustr \<Rightarrow> (nat \<times> nat) set \<Rightarrow> rmatch \<Rightarrow> (ustr \<times> nat) list \<Rightarrow> (ustr \<times> nat) list"
where
  "generic_count stripped domain_spans m id_def_count =
     (if is_inside_domain_hr (m_start m) (m_end m) domain_spans then id_def_count
      else if startswith stripped (generic_id m) then dict_bump id_def_count (generic_id m)
      else id_def_count)"

definition domain_count :: "unicode \<Rightarrow> ustr \<Rightarrow> rmatch \<Rightarrow> (ustr \<times> nat) list \<Rightarrow> (ustr \<times> nat) list" where
  "domain_count U stripped m id_def_count =
     (if startswith stripped (domain_id m) \<or> after_marker U stripped (domain_id m)
      then dict_bump id_def_count (domain_id m)
      else id_def_count)"

text \<open>The body of the loop over the lines that counts definitions.\<close>

definition def_count_line :: "unicode \<Rightarrow> ustr \<Rightarrow> (ustr \<times> nat) list \<Rightarrow> (ustr \<times> nat) list" where
  "def_count_line U line id_def_count =
     (let stripped = strip line;
          domain_spans = domain_hr_spans U stripped;
          id_def_count = fold (generic_count stripped domain_spans)
                              (finditer (ID_PATTERN_at U) stripped) id_def_count;
          id_def_count = fold (domain_count U stripped)
                              (finditer (DOMAIN_HR_PATTERN_at U) stripped) id_def_count
      in id_def_count)"

definition duplicate_msg :: "ustr \<Rightarrow> nat \<Rightarrow> ustr" where
  "duplicate_msg id_str count =
     ustr ''Duplicate ID definition: '' @ id_str @ ustr '' (defined '' @ str_of_nat count
       @ ustr '' times)''"

definition dangling_msg :: "ustr \<Rightarrow> ustr" where
  "dangling_msg d = ustr ''Dangling reference: '' @ d @ ustr '' (referenced but not defined)''"

definition report_duplicate :: "ustr \<times> nat \<Rightarrow> CheckResult \<Rightarrow> CheckResult" where
  "report_duplicate kc r = (if snd kc > 1 then fail r (duplicate_msg (fst kc) (snd kc)) else r)"

definition report_dangling :: "ustr \<Rightarrow> CheckResult \<Rightarrow> CheckResult" where
  "report_dangling d r = fail r (dangling_msg d)"

text \<open>\<open>check_2_id_integrity\<close>; \<open>sorted\<close> orders strings by code point.\<close>

definition check_2_id_integrity :: "unicode \<Rightarrow> ustr \<Rightarrow> CheckResult" where
  "check_2_id_integrity U rfc =
     (let r = new_result (ustr ''2. ID integrity & references'') (ustr ''hard'')
      in case extract_defined_ids U rfc of
           (defined, all_ids) \<Rightarrow>
             (let referenced = all_ids - defined;
                  id_def_count = fold (def_count_line U) (split_nl rfc) [];
                  r = fold report_duplicate id_def_count r;
                  dangling = referenced - defined;
                  r = (if dangling \<noteq> {}
                       then fold report_dangling (take 10 (sorted_list_of_set dangling)) r
                       else r)
              in r))"

text \<open>The issue strings of check 2 that report a dangling reference.\<close>

definition is_dangling_issue :: "ustr \<Rightarrow> bool" where
  "is_dangling_issue msg = startswith msg (ustr ''Dangling reference: '')"

section \<open>The section slicer\<close>

definition is_hash :: "nat \<Rightarrow> bool" where
  "is_hash c = (c = 35)"

text \<open>\<open>.\<close> without \<open>re.DOTALL\<close>: any character but the newline.\<close>

definition is_dot :: "nat \<Rightarrow> bool" where
  "is_dot c = (c \<noteq> 10)"

text \<open>After \<open>\s+\<close> took \<open>w\<close> and left \<open>r\<close>: \<open>(.+)\<close>, greedy.\<close>

definition title_after :: "nat \<Rightarrow> ustr \<times> ustr \<Rightarrow> (nat \<times> ustr) option" where
  "title_after level wr =
     (if 1 \<le> length (fst wr) \<and> takeWhile is_dot (snd wr) \<noteq> []
      then Some (level, takeWhile is_dot (snd wr))
      else None)"

text \<open>After \<open>(#{1,6})\<close> took \<open>h\<close> and left \<open>r\<close>: \<open>\s+(.+)\<close>.\<close>

definition heading_after :: "ustr \<times> ustr \<Rightarrow> (nat \<times> ustr) option" where
  "heading_after hr =
     (if 1 \<le> length (fst hr) \<and> length (fst hr) \<le> 6
      then first_some (title_after (length (fst hr))) (greedy_splits is_space (snd hr))
      else None)"

text \<open>
  \<open>re.match(r'^(#{1,6})\s+(.+)', stripped)\<close>: \<open>len(group(1))\<close> and \<open>group(2)\<close>.
\<close>

definition heading_match :: "ustr \<Rightarrow> (nat \<times> ustr) option" where
  "heading_match stripped = first_some heading_after (greedy_splits is_hash stripped)"

text \<open>
  The loop of \<open>_extract_section\<close> over the lines, with its variables \<open>in_section\<close>,
  \<open>section_level\<close> and \<open>section_lines\<close>; \<open>break\<close> returns what was collected. The
  argument \<open>pat\<close> stands for \<open>re.search(heading_pattern, title, re.IGNORECASE)\<close> read
  as a truth value.
\<close>

fun section_loop :: "(ustr \<Rightarrow> bool) \<Rightarrow> ustr list \<Rightarrow> bool \<Rightarrow> nat \<Rightarrow> ustr list \<Rightarrow> ustr list" where
  "section_loop pat [] in_section section_level section_lines = section_lines"
| "section_loop pat (line # lines) in_section section_level section_lines =
     (case heading_match (strip line) of
        Some (level, title) \<Rightarrow>
          (if in_section
           then (if level \<le> section_level then section_lines
                 else section_loop pat lines in_section section_level
                        (section_lines @ [strip line]))
           else if pat title
           then section_loop pat lines True level (section_lines @ [strip line])
           else section_loop pat lines in_section section_level section_lines)
      | None \<Rightarrow>
          (if in_section
           then section_loop pat lines in_section section_level (section_lines @ [strip line])
           else section_loop pat lines in_section section_level section_lines))"

text \<open>\<open>_extract_section\<close>\<close>

definition extract_section :: "(ustr \<Rightarrow> bool) \<Rightarrow> ustr \<Rightarrow> ustr option" where
  "extract_section pat rfc =
     (let section_lines = section_loop pat (split_nl rfc) False 0 []
      in if section_lines \<noteq> [] then Some (join_nl section_lines) else None)"

text \<open>
  The words of the specification: a line is a heading whose title matches the pattern;
  a line is a heading of depth at most \<open>d\<close>.
\<close>

definition matching_heading :: "(ustr \<Rightarrow> bool) \<Rightarrow> ustr \<Rightarrow> bool" where
  "matching_heading pat line =
     (case heading_match (strip line) of None \<Rightarrow> False | Some (level, title) \<Rightarrow> pat title)"

definition heading_depth :: "ustr \<Rightarrow> nat option" where
  "heading_depth line = map_option fst (heading_match (strip line))"

definition closes_section :: "nat \<Rightarrow> ustr \<Rightarrow> bool" where
  "closes_section d line =
     (case heading_depth line of None \<Rightarrow> False | Some level \<Rightarrow> level \<le> d)"

section \<open>Check 5: readability\<close>



























section \<open>Check 7: evidence cross-check\<close>

text \<open>
  What \<open>json.load\<close> returns; an object is a list of key-value pairs with distinct keys,
  a number is an integer (a float takes the same branches of this check as an integer
  does).
\<close>

datatype json =
  JNull | JBool bool | JNum int | JStr ustr | JArr "json list" | JObj "(ustr \<times> json) list"

datatype exn =
  AttributeError | TypeError | ValueError | FileNotFoundError | JSONDecodeError
  | UnicodeDecodeError | IsADirectoryError | PermissionError

text \<open>
  What check 7 asks of Python's library beyond the text model: \<open>str.lower\<close>, \<open>str(x)\<close>
  of a value that is no string, and the searches of the two case-insensitive patterns
  \<open>HARD_ASSERTION_KEYWORDS\<close> and \<open>HARD_ASSERTION_CONTEXT\<close>. They are parameters of the
  model.
\<close>

record pylib =
  str_lower :: "ustr \<Rightarrow> ustr"
  str_other :: "json \<Rightarrow> ustr"
  hard_keywords :: "ustr \<Rightarrow> bool"
  hard_context :: "ustr \<Rightarrow> bool"

text \<open>
  An instance for texts of ASCII characters that hold none of the keywords of the two
  patterns, and for links that are strings.
\<close>

definition ascii_lower :: "nat \<Rightarrow> nat" where
  "ascii_lower c = (if 65 \<le> c \<and> c \<le> 90 then c + 32 else c)"

definition plain_lib :: pylib where
  "plain_lib = \<lparr>str_lower = map ascii_lower, str_other = (\<lambda>j. []),
                 hard_keywords = (\<lambda>s. False), hard_context = (\<lambda>s. False)\<rparr>"

text \<open>\<open>str(x)\<close>, also what an f-string puts for \<open>{x}\<close>.\<close>

definition py_str :: "pylib \<Rightarrow> json \<Rightarrow> ustr" where
  "py_str L x = (case x of JStr s \<Rightarrow> s | _ \<Rightarrow> str_other L x)"

text \<open>Python's truth value of a JSON value.\<close>

fun truthy :: "json \<Rightarrow> bool" where
  "truthy JNull = False"
| "truthy (JBool b) = b"
| "truthy (JNum n) = (n \<noteq> 0)"
| "truthy (JStr s) = (s \<noteq> [])"
| "truthy (JArr xs) = (xs \<noteq> [])"
| "truthy (JObj kvs) = (kvs \<noteq> [])"

text \<open>\<open>d.get(key, default)\<close>; only a dictionary has the method.\<close>

fun dict_get :: "json \<Rightarrow> ustr \<Rightarrow> json \<Rightarrow> exn + json" where
  "dict_get (JObj kvs) key dflt = Inr (case map_of kvs key of None \<Rightarrow> dflt | Some v \<Rightarrow> v)"
| "dict_get j key dflt = Inl AttributeError"

text \<open>\<open>item.get(key)\<close> and \<open>item[key]\<close> where \<open>item\<close> is known to be a dictionary.\<close>

definition dict_value :: "json \<Rightarrow> ustr \<Rightarrow> json" where
  "dict_value item key = (case dict_get item key JNull of Inl e \<Rightarrow> JNull | Inr v \<Rightarrow> v)"

text \<open>What \<open>for item in x\<close> runs through.\<close>

fun iterate :: "json \<Rightarrow> exn + json list" where
  "iterate (JArr xs) = Inr xs"
| "iterate (JObj kvs) = Inr (map (\<lambda>kv. JStr (fst kv)) kvs)"
| "iterate (JStr s) = Inr (map (\<lambda>c. JStr [c]) s)"
| "iterate j = Inl TypeError"

text \<open>Lists and dictionaries cannot be members of a set.\<close>

fun hashable :: "json \<Rightarrow> bool" where
  "hashable (JArr xs) = False"
| "hashable (JObj kvs) = False"
| "hashable j = True"

text \<open>
  The first loop of \<open>check_7_evidence\<close>. For a truncated item that has links,
  \<open>links = item["links_to"] if isinstance(item["links_to"], list) else [item["links_to"]]\<close>,
  and each link that names a hard rule or a requirement is an issue unless the text
  speaks of something unresolved.
\<close>

definition links_list :: "json \<Rightarrow> json list" where
  "links_list l = (case l of JArr xs \<Rightarrow> xs | _ \<Rightarrow> [l])"

definition hard_link :: "pylib \<Rightarrow> json \<Rightarrow> bool" where
  "hard_link L link =
     (contains (py_str L link) (ustr ''HR-'') \<or> contains (py_str L link) (ustr ''REQ-''))"

definition no_unresolved :: "pylib \<Rightarrow> ustr \<Rightarrow> bool" where
  "no_unresolved L rfc =
     (\<not> contains rfc (ustr ''Unresolved'') \<and> \<not> contains (str_lower L rfc) (ustr ''unresolved''))"

definition truncated_msg :: "pylib \<Rightarrow> json \<Rightarrow> ustr" where
  "truncated_msg L evd_id =
     ustr ''Truncated evidence '' @ py_str L evd_id
       @ ustr '' supports hard assertion but no Unresolved/DEC in rfc.md''"

definition truncated_link :: "pylib \<Rightarrow> ustr \<Rightarrow> json \<Rightarrow> json \<Rightarrow> CheckResult \<Rightarrow> CheckResult" where
  "truncated_link L rfc evd_id link r =
     (if hard_link L link
      then (if no_unresolved L rfc then fail r (truncated_msg L evd_id) else r)
      else r)"

definition truncated_check :: "pylib \<Rightarrow> ustr \<Rightarrow> json \<Rightarrow> json \<Rightarrow> CheckResult \<Rightarrow> CheckResult" where
  "truncated_check L rfc item evd_id r =
     (if truthy (dict_value item (ustr ''truncated'')) \<and> truthy (dict_value item (ustr ''links_to''))
      then fold (truncated_link L rfc evd_id) (links_list (dict_value item (ustr ''links_to''))) r
      else r)"

fun evidence_loop ::
  "pylib \<Rightarrow> ustr \<Rightarrow> json list \<Rightarrow> json set \<Rightarrow> CheckResult \<Rightarrow> exn + (json set \<times> CheckResult)"
where
  "evidence_loop L rfc [] evd_ids_in_json r = Inr (evd_ids_in_json, r)"
| "evidence_loop L rfc (item # items) evd_ids_in_json r =
     (case dict_get item (ustr ''evd_id'') (JStr []) of
        Inl e \<Rightarrow> Inl e
      | Inr evd_id \<Rightarrow>
          (if hashable evd_id
           then evidence_loop L rfc items (insert evd_id evd_ids_in_json)
                  (truncated_check L rfc item evd_id r)
           else Inl TypeError))"

text \<open>\<open>EVD-\d{3,}\<close> tried at offset \<open>i\<close>; the pattern has no groups.\<close>

definition EVD_REF_at :: "unicode \<Rightarrow> nat option \<Rightarrow> ustr \<Rightarrow> nat \<Rightarrow> rmatch option" where
  "EVD_REF_at U prev rest i =
     (case after_literal (ustr ''EVD-'') rest of
        None \<Rightarrow> None
      | Some r \<Rightarrow>
          (if 3 \<le> length (takeWhile (is_digit U) r)
           then Some \<lparr>m_start = i, m_end = i + 4 + length (takeWhile (is_digit U) r),
                      group1 = [], group2 = []\<rparr>
           else None))"

text \<open>\<open>m.group()\<close>: the text of the match.\<close>

definition group0 :: "ustr \<Rightarrow> rmatch \<Rightarrow> ustr" where
  "group0 s m = take (m_end m - m_start m) (drop (m_start m) s)"

text \<open>\<open>rfc_evd_refs\<close>\<close>

definition rfc_evd_refs :: "unicode \<Rightarrow> ustr \<Rightarrow> ustr set" where
  "rfc_evd_refs U rfc = set (map (group0 rfc) (finditer (EVD_REF_at U) rfc))"

text \<open>
  Part A: the references of the text that are in no item of the store, the first five
  in sorted order, when \<open>evidence.get("items")\<close> is true.
\<close>

definition missing_evd_msg :: "ustr \<Rightarrow> ustr" where
  "missing_evd_msg evd = ustr ''EVD referenced in rfc.md but missing in evidence.json: '' @ evd"

definition fail_missing :: "ustr \<Rightarrow> CheckResult \<Rightarrow> CheckResult" where
  "fail_missing evd r = fail r (missing_evd_msg evd)"

definition report_missing :: "unicode \<Rightarrow> ustr \<Rightarrow> json \<Rightarrow> json set \<Rightarrow> CheckResult \<Rightarrow> CheckResult" where
  "report_missing U rfc items evd_ids_in_json r =
     (let missing_evd = {x \<in> rfc_evd_refs U rfc. JStr x \<notin> evd_ids_in_json}
      in if missing_evd \<noteq> {} \<and> truthy items
         then fold fail_missing (take 5 (sorted_list_of_set missing_evd)) r
         else r)"

text \<open>
  Part B. \<open>hr_definitions\<close>: for each line, numbered from 0, the generic matches of
  kind \<open>HR\<close> and then the domain-prefixed matches of the trimmed line, each as
  \<open>(i, hr_id, stripped)\<close>.
\<close>

definition is_hr :: "rmatch \<Rightarrow> bool" where
  "is_hr m = (group1 m = ustr ''HR'')"

definition hr_entry :: "nat \<Rightarrow> ustr \<Rightarrow> rmatch \<Rightarrow> nat \<times> ustr \<times> ustr" where
  "hr_entry i stripped m = (i, ustr ''HR-'' @ group2 m, stripped)"

definition domain_entry :: "nat \<Rightarrow> ustr \<Rightarrow> rmatch \<Rightarrow> nat \<times> ustr \<times> ustr" where
  "domain_entry i stripped m = (i, domain_id m, stripped)"

definition hr_defs_line :: "unicode \<Rightarrow> nat \<Rightarrow> ustr \<Rightarrow> (nat \<times> ustr \<times> ustr) list" where
  "hr_defs_line U i line =
     (let stripped = strip line
      in map (hr_entry i stripped) (filter is_hr (finditer (ID_PATTERN_at U) stripped))
         @ map (domain_entry i stripped) (finditer (DOMAIN_HR_PATTERN_at U) stripped))"

fun hr_defs_from :: "unicode \<Rightarrow> nat \<Rightarrow> ustr list \<Rightarrow> (nat \<times> ustr \<times> ustr) list" where
  "hr_defs_from U i [] = []"
| "hr_defs_from U i (line # lines) = hr_defs_line U i line @ hr_defs_from U (Suc i) lines"

text \<open>
  \<open>'\n'.join(lines[max(0, i - k):min(len(lines), i + k + 1)])\<close> and
  \<open>evd_line_pattern.search(s)\<close> read as a truth value.
\<close>

definition window_text :: "ustr list \<Rightarrow> nat \<Rightarrow> nat \<Rightarrow> ustr" where
  "window_text lines i k =
     join_nl (take (min (length lines) (i + k + 1) - (i - k)) (drop (i - k) lines))"

definition evd_search :: "unicode \<Rightarrow> ustr \<Rightarrow> bool" where
  "evd_search U s = (finditer (EVD_REF_at U) s \<noteq> [])"

text \<open>
  The loop over the items that looks for a link to \<open>hr_id\<close>:
  \<open>links = item.get("links_to", [])\<close>, a string is wrapped in a list, and
  \<open>any(hr_id in str(link) for link in links)\<close> iterates \<open>links\<close>, which raises
  \<open>TypeError\<close> for \<open>None\<close>, a number or a truth value.
\<close>

definition links_iter :: "json \<Rightarrow> exn + json list" where
  "links_iter links = (case links of JStr s \<Rightarrow> Inr [JStr s] | _ \<Rightarrow> iterate links)"

definition mentions :: "pylib \<Rightarrow> ustr \<Rightarrow> json \<Rightarrow> bool" where
  "mentions L hr_id link = contains (py_str L link) hr_id"

fun has_evd_linked :: "pylib \<Rightarrow> ustr \<Rightarrow> json list \<Rightarrow> exn + bool" where
  "has_evd_linked L hr_id [] = Inr False"
| "has_evd_linked L hr_id (item # items) =
     (case dict_get item (ustr ''links_to'') (JArr []) of
        Inl e \<Rightarrow> Inl e
      | Inr links \<Rightarrow>
          (case links_iter links of
             Inl e \<Rightarrow> Inl e
           | Inr ls \<Rightarrow>
               (if list_ex (mentions L hr_id) ls then Inr True
                else has_evd_linked L hr_id items)))"

definition hard_rule_msg :: "ustr \<Rightarrow> ustr" where
  "hard_rule_msg hr_id =
     ustr ''Hard rule '' @ hr_id @ ustr '' has no EVD reference nearby or linked in evidence.json''"

text \<open>The loop over \<open>hr_definitions\<close>.\<close>

fun hr_loop ::
  "unicode \<Rightarrow> pylib \<Rightarrow> ustr list \<Rightarrow> json list \<Rightarrow> (nat \<times> ustr \<times> ustr) list \<Rightarrow> CheckResult
     \<Rightarrow> exn + CheckResult"
where
  "hr_loop U L lines its [] r = Inr r"
| "hr_loop U L lines its (d # defs) r =
     (case has_evd_linked L (fst (snd d)) its of
        Inl e \<Rightarrow> Inl e
      | Inr linked \<Rightarrow>
          hr_loop U L lines its defs
            (if \<not> evd_search U (window_text lines (fst d) 10) \<and> \<not> linked
             then fail r (hard_rule_msg (fst (snd d)))
             else r))"

text \<open>
  Part B.2: the lines that hold a keyword of both patterns, outside the lines of
  \<open>hr_definitions\<close>; \<open>acc\<close> is \<open>(implicit_hard_count, implicit_hard_without_evd)\<close>.
\<close>

definition skipped_line :: "ustr \<Rightarrow> bool" where
  "skipped_line stripped =
     (stripped = [] \<or> startswith stripped (ustr ''#'') \<or> startswith stripped (ustr ''```''))"

definition hr_near :: "nat \<Rightarrow> nat \<Rightarrow> bool" where
  "hr_near i ln = (i - ln \<le> 5 \<and> ln - i \<le> 5)"

definition implicit_step ::
  "unicode \<Rightarrow> pylib \<Rightarrow> ustr list \<Rightarrow> nat list \<Rightarrow> nat \<Rightarrow> ustr \<Rightarrow> nat \<times> nat \<Rightarrow> nat \<times> nat"
where
  "implicit_step U L lines hr_line_nums i line acc =
     (if i \<in> set hr_line_nums then acc
      else if skipped_line (strip line) then acc
      else if hard_keywords L (strip line) \<and> hard_context L (strip line)
      then (fst acc + 1,
            if \<not> evd_search U (window_text lines i 5) \<and> \<not> list_ex (hr_near i) hr_line_nums
            then snd acc + 1 else snd acc)
      else acc)"

fun implicit_loop ::
  "unicode \<Rightarrow> pylib \<Rightarrow> ustr list \<Rightarrow> nat list \<Rightarrow> nat \<Rightarrow> ustr list \<Rightarrow> nat \<times> nat \<Rightarrow> nat \<times> nat"
where
  "implicit_loop U L lines hr_line_nums i [] acc = acc"
| "implicit_loop U L lines hr_line_nums i (line # ls) acc =
     implicit_loop U L lines hr_line_nums (Suc i) ls
       (implicit_step U L lines hr_line_nums i line acc)"

definition implicit_msg :: "nat \<Rightarrow> nat \<Rightarrow> ustr" where
  "implicit_msg implicit_hard_without_evd implicit_hard_count =
     str_of_nat implicit_hard_without_evd
       @ ustr '' implicit hard assertion(s) (must/forbidden/never in boundary/trust context) lack EVD reference (out of ''
       @ str_of_nat implicit_hard_count @ ustr '' detected)''"

definition implicit_scan ::
  "unicode \<Rightarrow> pylib \<Rightarrow> ustr list \<Rightarrow> (nat \<times> ustr \<times> ustr) list \<Rightarrow> CheckResult \<Rightarrow> CheckResult"
where
  "implicit_scan U L lines hr_definitions r =
     (let acc = implicit_loop U L lines (map fst hr_definitions) 0 lines (0, 0)
      in if snd acc > 0 then fail r (implicit_msg (snd acc) (fst acc)) else r)"

text \<open>
  \<open>check_7_evidence\<close>: the result, or the exception it raises. \<open>evidence\<close> is what
  \<open>load_evidence\<close> returns.
\<close>

definition check_7_evidence :: "unicode \<Rightarrow> pylib \<Rightarrow> ustr \<Rightarrow> json \<Rightarrow> exn + CheckResult" where
  "check_7_evidence U L rfc evidence =
     (case dict_get evidence (ustr ''items'') (JArr []) of
        Inl e \<Rightarrow> Inl e
      | Inr items \<Rightarrow>
          (case iterate items of
             Inl e \<Rightarrow> Inl e
           | Inr its \<Rightarrow>
               (case evidence_loop L rfc its {}
                       (new_result (ustr ''7. Evidence cross-check'') (ustr ''hard'')) of
                  Inl e \<Rightarrow> Inl e
                | Inr st \<Rightarrow>
                    (case hr_loop U L (split_nl rfc) its (hr_defs_from U 0 (split_nl rfc))
                            (report_missing U rfc items (fst st) (snd st)) of
                       Inl e \<Rightarrow> Inl e
                     | Inr r \<Rightarrow>
                         Inr (implicit_scan U L (split_nl rfc)
                                (hr_defs_from U 0 (split_nl rfc)) r)))))"

text \<open>\<open>item.get("evd_id", "")\<close> of an item that is a dictionary.\<close>

definition evd_id_of :: "json \<Rightarrow> json" where
  "evd_id_of item =
     (case dict_get item (ustr ''evd_id'') (JStr []) of Inl e \<Rightarrow> JNull | Inr v \<Rightarrow> v)"

text \<open>
  An item as the evidence store holds it: a dictionary whose \<open>evd_id\<close> can be hashed
  and whose \<open>links_to\<close>, when present, is a string, a list or a dictionary.
\<close>

definition links_ok :: "json \<Rightarrow> bool" where
  "links_ok item =
     (case dict_get item (ustr ''links_to'') (JArr []) of
        Inl e \<Rightarrow> False
      | Inr links \<Rightarrow> (case links of JStr s \<Rightarrow> True | JArr xs \<Rightarrow> True | JObj kvs \<Rightarrow> True | _ \<Rightarrow> False))"

definition evidence_item :: "json \<Rightarrow> bool" where
  "evidence_item item = (links_ok item \<and> hashable (evd_id_of item))"

text \<open>The evidence ids that a result reports as missing.\<close>

definition reported_missing :: "CheckResult \<Rightarrow> ustr set" where
  "reported_missing r = {e. missing_evd_msg e \<in> set (issues r)}"

section \<open>Configuration\<close>

text \<open>
  Python values with the identity of the mutable ones: an atom is immutable, a list
  and a dictionary carry the address of the object. Two occurrences of one address are
  one object. \<open>x is y\<close> compares addresses, \<open>x == y\<close> compares what is left when the
  addresses are erased.
\<close>

datatype atom = ANone | ABool bool | AInt int | AStr ustr

datatype pyval = Atom atom | PList nat "pyval list" | PDict nat "(atom \<times> pyval) list"

datatype snapshot = SAtom atom | SList "snapshot list" | SDict "(atom \<times> snapshot) list"

fun erase :: "pyval \<Rightarrow> snapshot" where
  "erase (Atom x) = SAtom x"
| "erase (PList a xs) = SList (map erase xs)"
| "erase (PDict a kvs) = SDict (map (\<lambda>(k, v). (k, erase v)) kvs)"

text \<open>The addresses of the objects a value reaches.\<close>

fun addrs :: "pyval \<Rightarrow> nat set" where
  "addrs (Atom x) = {}"
| "addrs (PList a xs) = insert a (\<Union>x \<in> set xs. addrs x)"
| "addrs (PDict a kvs) = insert a (\<Union>(k, v) \<in> set kvs. addrs v)"

text \<open>
  A mutation of the object at address \<open>a\<close>, as every holder of a reference sees it: the
  object's new state \<open>new\<close> replaces the old one wherever the address occurs.
\<close>

fun poke :: "nat \<Rightarrow> pyval \<Rightarrow> pyval \<Rightarrow> pyval" where
  "poke a new (Atom x) = Atom x"
| "poke a new (PList b xs) = (if a = b then new else PList b (map (poke a new) xs))"
| "poke a new (PDict b kvs) =
     (if a = b then new else PDict b (map (\<lambda>(k, v). (k, poke a new v)) kvs))"

text \<open>
  The interpreter state the resolver works in: the next free address and the module
  global \<open>DEFAULT_CONFIG\<close>.
\<close>

record pystate =
  next_addr :: nat
  default_config :: pyval

text \<open>The dictionary literal bound to \<open>DEFAULT_CONFIG\<close>.\<close>

definition DEFAULT_CONFIG :: pyval where
  "DEFAULT_CONFIG =
   PDict 8
     [(AStr (ustr ''min_scn_categories''),
       PList 0
         [Atom (AStr (ustr ''normal'')),
          Atom (AStr (ustr ''reject_authn'')),
          Atom (AStr (ustr ''reject_authz'')),
          Atom (AStr (ustr ''limits_quota'')),
          Atom (AStr (ustr ''dependency_down'')),
          Atom (AStr (ustr ''abuse''))]),
      (AStr (ustr ''reject_categories''),
       PList 1
         [Atom (AStr (ustr ''reject_authn'')),
          Atom (AStr (ustr ''reject_authz''))]),
      (AStr (ustr ''allowed_lang_tags''),
       PList 2
         [Atom (AStr []),
          Atom (AStr (ustr ''text'')),
          Atom (AStr (ustr ''contract'')),
          Atom (AStr (ustr ''json'')),
          Atom (AStr (ustr ''mermaid'')),
          Atom (AStr (ustr ''bash''))]),
      (AStr (ustr ''meta_fields''),
       PList 3
         [Atom (AStr (ustr ''template_id'')),
          Atom (AStr (ustr ''template_version'')),
          Atom (AStr (ustr ''strictness''))]),
      (AStr (ustr ''review_keywords''),
       PList 4
         [Atom (AStr [32972, 26223]),
          Atom (AStr [30171, 28857]),
          Atom (AStr [30446, 26631]),
          Atom (AStr [32467, 35770]),
          Atom (AStr [26041, 26696]),
          Atom (AStr [24433, 21709])]),
      (AStr (ustr ''normative_keywords''),
       PList 5
         [Atom (AStr [23433, 20840]),
          Atom (AStr [21487, 38752]),
          Atom (AStr [39564, 25910]),
          Atom (AStr [20915, 31574]),
          Atom (AStr [21487, 35266, 27979])]),
      (AStr (ustr ''heading_category_map''),
       PDict 6
         [(AStr (ustr ''normal''), Atom (AStr (ustr ''normal''))),
          (AStr [27491, 24120], Atom (AStr (ustr ''normal''))),
          (AStr (ustr ''authn''), Atom (AStr (ustr ''reject_authn''))),
          (AStr (ustr ''authz''), Atom (AStr (ustr ''reject_authz''))),
          (AStr [26435, 38480], Atom (AStr (ustr ''reject_authz''))),
          (AStr [36234, 26435], Atom (AStr (ustr ''reject_authz''))),
          (AStr (ustr ''reject''), Atom (AStr (ustr ''reject_authz''))),
          (AStr (ustr ''limits''), Atom (AStr (ustr ''limits_quota''))),
          (AStr (ustr ''quota''), Atom (AStr (ustr ''limits_quota''))),
          (AStr [38750, 27861, 20540], Atom (AStr (ustr ''limits_quota''))),
          (AStr [36793, 30028], Atom (AStr (ustr ''limits_quota''))),
          (AStr (ustr ''dependency''), Atom (AStr (ustr ''dependency_down''))),
          (AStr [20381, 36182], Atom (AStr (ustr ''dependency_down''))),
          (AStr [25925, 38556], Atom (AStr (ustr ''dependency_down''))),
          (AStr (ustr ''recovery''), Atom (AStr (ustr ''dependency_down''))),
          (AStr (ustr ''abuse''), Atom (AStr (ustr ''abuse''))),
          (AStr [28389, 29992], Atom (AStr (ustr ''abuse''))),
          (AStr [40065, 26834], Atom (AStr (ustr ''abuse'')))]),
      (AStr (ustr ''placeholder_patterns''),
       PList 7
         [Atom (AStr (ustr ''(?<![A-Za-z])TBD(?![A-Za-z])'')),
          Atom (AStr (ustr ''(?<![A-Za-z])XXX(?![A-Za-z])'')),
          Atom (AStr (ustr ''(?<![A-Za-z])TODO(?![A-Za-z])'')),
          Atom (AStr (ustr ''(?<![A-Za-z])FIXME(?![A-Za-z])'')),
          Atom (AStr [60, 92, 46, 92, 46, 92, 46, 62])])]"

definition module_state :: pystate where
  "module_state = \<lparr>next_addr = 9, default_config = DEFAULT_CONFIG\<rparr>"

text \<open>
  \<open>copy.deepcopy(x, memo)\<close>: an atom is returned as it is, an object already in the
  memo gives its copy, a list or a dictionary gets a new object with copies of the
  elements. The third argument is the next free address.
\<close>

fun deepcopy :: "(nat \<times> pyval) list \<Rightarrow> pyval \<Rightarrow> nat \<Rightarrow> pyval \<times> (nat \<times> pyval) list \<times> nat"
  and deepcopy_list ::
    "(nat \<times> pyval) list \<Rightarrow> pyval list \<Rightarrow> nat \<Rightarrow> pyval list \<times> (nat \<times> pyval) list \<times> nat"
  and deepcopy_items ::
    "(nat \<times> pyval) list \<Rightarrow> (atom \<times> pyval) list \<Rightarrow> nat
       \<Rightarrow> (atom \<times> pyval) list \<times> (nat \<times> pyval) list \<times> nat"
where
  "deepcopy memo (Atom x) n = (Atom x, memo, n)"
| "deepcopy memo (PList a xs) n =
     (case map_of memo a of
        Some y \<Rightarrow> (y, memo, n)
      | None \<Rightarrow>
          (case deepcopy_list memo xs (Suc n) of
             (ys, memo', n') \<Rightarrow> (PList n ys, (a, PList n ys) # memo', n')))"
| "deepcopy memo (PDict a kvs) n =
     (case map_of memo a of
        Some y \<Rightarrow> (y, memo, n)
      | None \<Rightarrow>
          (case deepcopy_items memo kvs (Suc n) of
             (kvs', memo', n') \<Rightarrow> (PDict n kvs', (a, PDict n kvs') # memo', n')))"
| "deepcopy_list memo [] n = ([], memo, n)"
| "deepcopy_list memo (x # xs) n =
     (case deepcopy memo x n of
        (y, memo', n') \<Rightarrow>
          (case deepcopy_list memo' xs n' of
             (ys, memo'', n'') \<Rightarrow> (y # ys, memo'', n'')))"
| "deepcopy_items memo [] n = ([], memo, n)"
| "deepcopy_items memo ((k, v) # kvs) n =
     (case deepcopy memo v n of
        (v', memo', n') \<Rightarrow>
          (case deepcopy_items memo' kvs n' of
             (kvs', memo'', n'') \<Rightarrow> ((k, v') # kvs', memo'', n'')))"

text \<open>The objects \<open>json.load\<close> builds for a parsed document, all of them new.\<close>

fun json_objects :: "json \<Rightarrow> nat \<Rightarrow> pyval \<times> nat"
  and json_list :: "json list \<Rightarrow> nat \<Rightarrow> pyval list \<times> nat"
  and json_items :: "(ustr \<times> json) list \<Rightarrow> nat \<Rightarrow> (atom \<times> pyval) list \<times> nat"
where
  "json_objects JNull n = (Atom ANone, n)"
| "json_objects (JBool b) n = (Atom (ABool b), n)"
| "json_objects (JNum i) n = (Atom (AInt i), n)"
| "json_objects (JStr s) n = (Atom (AStr s), n)"
| "json_objects (JArr xs) n = (case json_list xs (Suc n) of (ys, n') \<Rightarrow> (PList n ys, n'))"
| "json_objects (JObj kvs) n = (case json_items kvs (Suc n) of (kvs', n') \<Rightarrow> (PDict n kvs', n'))"
| "json_list [] n = ([], n)"
| "json_list (x # xs) n =
     (case json_objects x n of (y, n') \<Rightarrow> (case json_list xs n' of (ys, n'') \<Rightarrow> (y # ys, n'')))"
| "json_items [] n = ([], n)"
| "json_items ((k, v) # kvs) n =
     (case json_objects v n of
        (v', n') \<Rightarrow> (case json_items kvs n' of (kvs', n'') \<Rightarrow> ((AStr k, v') # kvs', n'')))"

text \<open>Dictionary keys are compared with \<open>==\<close>, for which \<open>True\<close> is \<open>1\<close> and \<open>False\<close> is \<open>0\<close>.\<close>

fun key_norm :: "atom \<Rightarrow> atom" where
  "key_norm (ABool b) = AInt (if b then 1 else 0)"
| "key_norm k = k"

text \<open>\<open>d[k] = v\<close> on the entries of a dictionary.\<close>

fun dict_set :: "(atom \<times> pyval) list \<Rightarrow> atom \<Rightarrow> pyval \<Rightarrow> (atom \<times> pyval) list" where
  "dict_set [] k v = [(k, v)]"
| "dict_set ((k', v') # kvs) k v =
     (if key_norm k' = key_norm k then (k', v) # kvs else (k', v') # dict_set kvs k v)"

text \<open>
  An element of the sequence given to \<open>dict.update\<close> read as a key and a value: it must
  itself be a sequence of length two with a hashable first element.
\<close>

definition update_pair :: "pyval \<Rightarrow> exn + atom \<times> pyval" where
  "update_pair x =
     (case x of
        PList a xs \<Rightarrow>
          (case xs of
             [k, v] \<Rightarrow> (case k of Atom ka \<Rightarrow> Inr (ka, v) | _ \<Rightarrow> Inl TypeError)
           | _ \<Rightarrow> Inl ValueError)
      | PDict a kvs \<Rightarrow>
          (case kvs of
             [(k1, v1), (k2, v2)] \<Rightarrow> Inr (k1, Atom k2)
           | _ \<Rightarrow> Inl ValueError)
      | Atom (AStr s) \<Rightarrow>
          (case s of
             [c1, c2] \<Rightarrow> Inr (AStr [c1], Atom (AStr [c2]))
           | _ \<Rightarrow> Inl ValueError)
      | Atom _ \<Rightarrow> Inl TypeError)"

fun update_pairs :: "(atom \<times> pyval) list \<Rightarrow> pyval list \<Rightarrow> exn + (atom \<times> pyval) list" where
  "update_pairs kvs [] = Inr kvs"
| "update_pairs kvs (x # xs) =
     (case update_pair x of
        Inl e \<Rightarrow> Inl e
      | Inr (k, v) \<Rightarrow> update_pairs (dict_set kvs k v) xs)"

text \<open>
  \<open>cfg.update(overrides)\<close>: the entries of the dictionary \<open>cfg\<close> afterwards, or the
  exception raised.
\<close>

definition dict_update :: "(atom \<times> pyval) list \<Rightarrow> pyval \<Rightarrow> exn + (atom \<times> pyval) list" where
  "dict_update kvs other =
     (case other of
        PDict b kvs' \<Rightarrow> Inr (fold (\<lambda>(k, v) d. dict_set d k v) kvs' kvs)
      | PList b xs \<Rightarrow> update_pairs kvs xs
      | Atom (AStr s) \<Rightarrow> update_pairs kvs (map (\<lambda>c. Atom (AStr [c])) s)
      | Atom _ \<Rightarrow> Inl TypeError)"

text \<open>
  The file system as \<open>load_config\<close> sees it: what \<open>open(config_path, "r",
  encoding="utf-8")\<close> followed by \<open>json.load(f)\<close> does for a path, and the directory of
  the script.
\<close>

datatype outcome = Raises exn | Parsed json

record env =
  read_json :: "ustr \<Rightarrow> outcome"
  script_dir :: ustr

text \<open>\<open>str(Path(__file__).resolve().parent / "gate_a_config.json")\<close>\<close>

definition default_config_path :: "env \<Rightarrow> ustr" where
  "default_config_path E = script_dir E @ ustr ''/gate_a_config.json''"

text \<open>\<open>except (FileNotFoundError, json.JSONDecodeError): pass\<close>\<close>

definition caught :: "exn \<Rightarrow> bool" where
  "caught e = (e = FileNotFoundError \<or> e = JSONDecodeError)"

text \<open>
  \<open>load_config\<close>: the value returned or the exception that leaves the function, and the
  state afterwards. \<open>cfg.update\<close> changes the object \<open>cfg\<close> in place, for every holder
  of a reference to it.
\<close>

definition load_config :: "env \<Rightarrow> ustr option \<Rightarrow> pystate \<Rightarrow> (exn + pyval) \<times> pystate" where
  "load_config E config_path st =
     (case deepcopy [] (default_config st) (next_addr st) of
        (cfg, memo, n) \<Rightarrow>
          (let st = st\<lparr>next_addr := n\<rparr>;
               config_path = (case config_path of None \<Rightarrow> default_config_path E | Some p \<Rightarrow> p)
           in case read_json E config_path of
                Raises e \<Rightarrow> (if caught e then Inr cfg else Inl e, st)
              | Parsed j \<Rightarrow>
                  (case json_objects j (next_addr st) of
                     (overrides, n') \<Rightarrow>
                       (let st = st\<lparr>next_addr := n'\<rparr>
                        in case cfg of
                             PDict c kvs \<Rightarrow>
                               (case dict_update kvs overrides of
                                  Inl e \<Rightarrow> (if caught e then Inr cfg else Inl e, st)
                                | Inr kvs' \<Rightarrow>
                                    (Inr (PDict c kvs'),
                                     st\<lparr>default_config :=
                                          poke c (PDict c kvs') (default_config st)\<rparr>))
                           | _ \<Rightarrow> (Inl AttributeError, st)))))"

text \<open>The addresses reached by the copies a memo holds.\<close>

definition memo_addrs :: "(nat \<times> pyval) list \<Rightarrow> nat set" where
  "memo_addrs memo = (\<Union>(a, y) \<in> set memo. addrs y)"

text \<open>The addresses reached by the values of a dictionary's entries.\<close>

definition value_addrs :: "(atom \<times> pyval) list \<Rightarrow> nat set" where
  "value_addrs kvs = (\<Union>(k, v) \<in> set kvs. addrs v)"

text \<open>A state is well formed when \<open>DEFAULT_CONFIG\<close> reaches allocated addresses only.\<close>

definition wf_state :: "pystate \<Rightarrow> bool" where
  "wf_state st = (addrs (default_config st) \<subseteq> {..< next_addr st})"

section \<open>Properties of the aggregator\<close>

lemma names_of_filter_map:
  "[name r. r \<leftarrow> rs, P r] = map name (filter P rs)"
  by (induction rs) auto

text \<open>
  C1. For all lists of hard and soft results the aggregator answers FAIL when some hard
  result has \<open>passed = False\<close>, otherwise WARN when some soft result carries a warning,
  otherwise PASS; and \<open>hard_pass\<close>, \<open>hard_fail\<close>, \<open>soft_warn\<close> are, in order, the names
  of the passing hard results, of the failing hard results and of the soft results
  that carry a warning.
\<close>

theorem run_gate_a_verdict:
  "overall (run_gate_a hs ss) =
     (if \<exists>r \<in> set hs. \<not> passed r then ustr ''FAIL''
      else if \<exists>r \<in> set ss. warnings r \<noteq> [] then ustr ''WARN''
      else ustr ''PASS'')
   \<and> hard_pass (run_gate_a hs ss) = map name (filter passed hs)
   \<and> hard_fail (run_gate_a hs ss) = map name (filter (\<lambda>r. \<not> passed r) hs)
   \<and> soft_warn (run_gate_a hs ss) = map name (filter (\<lambda>r. warnings r \<noteq> []) ss)"
  by (simp add: run_gate_a_def Let_def names_of_filter_map filter_empty_conv)

theorem run_gate_a_verdict_witness:
  "overall (run_gate_a
      [fail (new_result (ustr ''h1'') (ustr ''hard'')) (ustr ''bad''),
       new_result (ustr ''h2'') (ustr ''hard'')]
      [warn (new_result (ustr ''s1'') (ustr ''soft'')) (ustr ''w'')]) = ustr ''FAIL''
   \<and> hard_pass (run_gate_a
      [fail (new_result (ustr ''h1'') (ustr ''hard'')) (ustr ''bad''),
       new_result (ustr ''h2'') (ustr ''hard'')]
      [warn (new_result (ustr ''s1'') (ustr ''soft'')) (ustr ''w'')]) = [ustr ''h2'']
   \<and> hard_fail (run_gate_a
      [fail (new_result (ustr ''h1'') (ustr ''hard'')) (ustr ''bad''),
       new_result (ustr ''h2'') (ustr ''hard'')]
      [warn (new_result (ustr ''s1'') (ustr ''soft'')) (ustr ''w'')]) = [ustr ''h1'']
   \<and> soft_warn (run_gate_a
      [fail (new_result (ustr ''h1'') (ustr ''hard'')) (ustr ''bad''),
       new_result (ustr ''h2'') (ustr ''hard'')]
      [warn (new_result (ustr ''s1'') (ustr ''soft'')) (ustr ''w'')]) = [ustr ''s1'']"
  using run_gate_a_verdict
    [of "[fail (new_result (ustr ''h1'') (ustr ''hard'')) (ustr ''bad''),
          new_result (ustr ''h2'') (ustr ''hard'')]"
        "[warn (new_result (ustr ''s1'') (ustr ''soft'')) (ustr ''w'')]"]
  by (simp add: fail_def warn_def new_result_def)

section \<open>Evaluation\<close>

lemmas ev =
  ustr_def ascii_only_def is_digit_def is_word_def is_space_def strip_def word_boundary_def
  digits_boundary_def digits_tail_def ID_KINDS_def try_kind_def ID_PATTERN_at_def is_upper_def
  try_domain_def DOMAIN_HR_PATTERN_at_def finditer_def span_of_def domain_hr_spans_def
  is_inside_domain_hr_def generic_id_def domain_id_def add_generic_def add_domain_def
  extract_ids_def marker_char_def literal_follows_def marker_then_id_def after_marker_def
  in_table_cell_def is_definition_def record_id_def generic_defined_def domain_defined_def
  defined_ids_line_def extract_defined_ids_def generic_count_def domain_count_def
  def_count_line_def duplicate_msg_def dangling_msg_def report_duplicate_def
  report_dangling_def check_2_id_integrity_def is_dangling_issue_def new_result_def fail_def
  Let_def str_of_nat.simps

section \<open>Properties of the identifier extractor\<close>

lemma fold_add_generic:
  "fold (add_generic sp) ms ids =
     ids \<union> generic_id ` {m \<in> set ms. \<not> is_inside_domain_hr (m_start m) (m_end m) sp}"
  by (induction ms arbitrary: ids) (auto simp: add_generic_def)

lemma fold_add_domain: "fold add_domain ms ids = ids \<union> domain_id ` set ms"
  by (induction ms arbitrary: ids) (auto simp: add_domain_def)

lemma is_inside_domain_hr_matches:
  "is_inside_domain_hr pos e (span_of ` set ds)
     = (\<exists>d \<in> set ds. m_start d \<le> pos \<and> e \<le> m_end d)"
  by (auto simp: is_inside_domain_hr_def span_of_def)

lemma after_literal_Some: "after_literal p s = Some r \<Longrightarrow> s = p @ r"
  by (induction p s rule: after_literal.induct) (auto split: if_splits)

lemma greedy_splits_sound:
  "(t, r) \<in> set (greedy_splits P s) \<Longrightarrow> s = t @ r \<and> (\<forall>c \<in> set t. P c)"
  by (induction s arbitrary: t r) (auto split: if_splits)

lemma first_some_Some: "first_some f xs = Some y \<Longrightarrow> \<exists>x \<in> set xs. f x = Some y"
  by (induction xs) (auto split: option.splits)

lemma digits_tail_Some:
  assumes "digits_tail U s = Some (d, r)"
  shows "s = d @ r \<and> (\<forall>c \<in> set d. is_digit U c) \<and> 3 \<le> length d"
proof -
  have "(d, r) \<in> set (greedy_splits (is_digit U) s)" and "digits_boundary U (d, r)"
    using assms by (auto simp: digits_tail_def find_Some_iff in_set_conv_nth)
  then show ?thesis
    using greedy_splits_sound [of d r "is_digit U" s] by (auto simp: digits_boundary_def)
qed

lemma ID_PATTERN_at_Some:
  assumes "ID_PATTERN_at U prev rest i = Some m"
  shows "word_boundary U prev rest
     \<and> (\<exists>k d r. k \<in> set ID_KINDS \<and> rest = k @ 45 # d @ r \<and> digits_tail U (d @ r) = Some (d, r)
           \<and> m_start m = i \<and> m_end m = i + length k + 1 + length d)"
proof -
  have wb: "word_boundary U prev rest"
    using assms by (auto simp: ID_PATTERN_at_def split: if_splits)
  then have "first_some (try_kind U rest i) ID_KINDS = Some m"
    using assms by (simp add: ID_PATTERN_at_def)
  then obtain k where k: "k \<in> set ID_KINDS" and tk: "try_kind U rest i k = Some m"
    using first_some_Some by fastforce
  from tk obtain r0 d r where al: "after_literal (k @ ustr ''-'') rest = Some r0"
    and dt: "digits_tail U r0 = Some (d, r)"
    and m: "m = \<lparr>m_start = i, m_end = i + length k + 1 + length d, group1 = k, group2 = d\<rparr>"
    by (auto simp: try_kind_def split: option.splits)
  have "rest = (k @ ustr ''-'') @ r0"
    using al by (rule after_literal_Some)
  moreover have "r0 = d @ r"
    using digits_tail_Some [OF dt] by simp
  ultimately have "rest = k @ 45 # d @ r"
    by (simp add: ustr_def)
  then show ?thesis
    using wb k dt m \<open>r0 = d @ r\<close> by auto
qed

lemma DOMAIN_HR_PATTERN_at_Some:
  assumes "DOMAIN_HR_PATTERN_at U prev rest i = Some m"
  shows "word_boundary U prev rest
     \<and> (\<exists>t d r. t \<noteq> [] \<and> (\<forall>c \<in> set t. is_upper c) \<and> rest = t @ [45, 72, 82, 45] @ d @ r
           \<and> digits_tail U (d @ r) = Some (d, r)
           \<and> m_start m = i \<and> m_end m = i + length t + 4 + length d)"
proof -
  have wb: "word_boundary U prev rest"
    using assms by (auto simp: DOMAIN_HR_PATTERN_at_def split: if_splits)
  then have "first_some (try_domain U i) (greedy_splits is_upper rest) = Some m"
    using assms by (simp add: DOMAIN_HR_PATTERN_at_def)
  then obtain tr where tr: "tr \<in> set (greedy_splits is_upper rest)" and td: "try_domain U i tr = Some m"
    using first_some_Some by fastforce
  obtain t r1 where trp: "tr = (t, r1)"
    by (cases tr) auto
  have sp: "rest = t @ r1" and up: "\<forall>c \<in> set t. is_upper c"
    using greedy_splits_sound [of t r1 is_upper rest] tr trp by auto
  from td trp obtain r0 d r where ne: "1 \<le> length t"
    and al: "after_literal (ustr ''-HR-'') r1 = Some r0"
    and dt: "digits_tail U r0 = Some (d, r)"
    and m: "m = \<lparr>m_start = i, m_end = i + length t + 4 + length d, group1 = t, group2 = d\<rparr>"
    by (auto simp: try_domain_def split: option.splits if_splits)
  have "r1 = ustr ''-HR-'' @ r0"
    using al by (rule after_literal_Some)
  moreover have "r0 = d @ r"
    using digits_tail_Some [OF dt] by simp
  ultimately have "rest = t @ [45, 72, 82, 45] @ d @ r"
    using sp by (simp add: ustr_def)
  moreover have "t \<noteq> []"
    using ne by auto
  ultimately show ?thesis
    using wb up dt m \<open>r0 = d @ r\<close> by auto
qed

lemma finditer_from_pos:
  "m \<in> set (finditer_from p prev rest i skip) \<Longrightarrow> prev = last_opt pre \<Longrightarrow> i = length pre \<Longrightarrow>
   \<exists>pre' rest'. pre @ rest = pre' @ rest' \<and> p (last_opt pre') rest' (length pre') = Some m"
proof (induction rest arbitrary: prev i skip pre)
  case Nil
  then show ?case
    by (auto split: if_splits option.splits)
next
  case (Cons c cs)
  have step: "\<And>sk. m \<in> set (finditer_from p (Some c) cs (Suc i) sk) \<Longrightarrow>
      \<exists>pre' rest'. pre @ c # cs = pre' @ rest' \<and> p (last_opt pre') rest' (length pre') = Some m"
  proof -
    fix sk
    assume mem: "m \<in> set (finditer_from p (Some c) cs (Suc i) sk)"
    have a: "Some c = last_opt (pre @ [c])"
      by (simp add: last_opt_def)
    have b: "Suc i = length (pre @ [c])"
      using Cons.prems(3) by simp
    obtain pre' rest' where e: "(pre @ [c]) @ cs = pre' @ rest'"
      and q: "p (last_opt pre') rest' (length pre') = Some m"
      using Cons.IH [OF mem a b] by blast
    have "pre @ c # cs = pre' @ rest'"
      using e by simp
    with q show "\<exists>pre' rest'. pre @ c # cs = pre' @ rest'
        \<and> p (last_opt pre') rest' (length pre') = Some m"
      by blast
  qed
  show ?case
  proof (cases "0 < skip")
    case True
    then show ?thesis
      using Cons.prems(1) step by simp
  next
    case False
    show ?thesis
    proof (cases "p prev (c # cs) i")
      case None
      then show ?thesis
        using Cons.prems(1) False step by simp
    next
      case (Some m')
      then have "m = m' \<or> m \<in> set (finditer_from p (Some c) cs (Suc i) (m_end m' - i - 1))"
        using Cons.prems(1) False by simp
      then show ?thesis
      proof
        assume "m = m'"
        then have "p (last_opt pre) (c # cs) (length pre) = Some m"
          using Some Cons.prems(2,3) by simp
        then show ?thesis by blast
      next
        assume "m \<in> set (finditer_from p (Some c) cs (Suc i) (m_end m' - i - 1))"
        then show ?thesis by (rule step)
      qed
    qed
  qed
qed

lemma finditer_pos:
  "m \<in> set (finditer p s) \<Longrightarrow>
   \<exists>pre rest. s = pre @ rest \<and> p (last_opt pre) rest (length pre) = Some m"
  using finditer_from_pos [of m p None s 0 0 "[]"] by (simp add: finditer_def last_opt_def)


lemma kinds_upper: "k \<in> set ID_KINDS \<Longrightarrow> \<forall>c \<in> set k. is_upper c"
  by (auto simp: ID_KINDS_def ustr_def is_upper_def)

lemma kinds_shape:
  "k \<in> set ID_KINDS \<Longrightarrow> 2 \<le> length k \<and> (k ! 0 = 72 \<longrightarrow> k = [72, 82]) \<and> (k ! 0 = 82 \<longrightarrow> k ! 1 = 69)"
  by (auto simp: ID_KINDS_def ustr_def)

lemma upper_class: "is_upper c \<Longrightarrow> c \<noteq> 45 \<and> \<not> is_digit U c \<and> is_word U c"
  by (auto simp: is_upper_def is_digit_def is_word_def)

lemma digit_class: "is_digit U c \<Longrightarrow> c \<noteq> 45 \<and> c \<noteq> 72"
  by (auto simp: is_digit_def split: if_splits)

lemma nth_middle: "s = pre @ x @ post \<Longrightarrow> o' < length x \<Longrightarrow> s ! (length pre + o') = x ! o'"
  by (simp add: nth_append)

lemma overlap_nested:
  assumes g1: "s = pre1 @ k @ 45 # d @ r1" and g2: "k \<in> set ID_KINDS"
    and g3: "digits_tail U (d @ r1) = Some (d, r1)"
    and d1: "s = pre2 @ t @ [45, 72, 82, 45] @ d2 @ r2" and d2: "t \<noteq> []"
    and d3: "\<forall>c \<in> set t. is_upper c" and d4: "digits_tail U (d2 @ r2) = Some (d2, r2)"
    and d5: "word_boundary U (last_opt pre2) (t @ [45, 72, 82, 45] @ d2 @ r2)"
    and o1: "length pre1 < length pre2 + length t + 4 + length d2"
    and o2: "length pre2 < length pre1 + length k + 1 + length d"
  shows "length pre2 \<le> length pre1
     \<and> length pre1 + length k + 1 + length d \<le> length pre2 + length t + 4 + length d2"
proof -
  let ?i = "length pre1" and ?j = "length pre2"
  have lk: "2 \<le> length k"
    using kinds_shape [OF g2] by simp
  have k0: "0 < length k" and k1: "1 < length k"
    using lk by linarith+
  have ld: "3 \<le> length d" and dd: "\<forall>c \<in> set d. is_digit U c"
    using digits_tail_Some [OF g3] by simp_all
  have ld2: "3 \<le> length d2" and dd2: "\<forall>c \<in> set d2. is_digit U c"
    using digits_tail_Some [OF d4] by simp_all
  have lt: "1 \<le> length t"
    using d2 by (cases t) auto
  have K: "\<And>x. x < length k \<Longrightarrow> s ! (?i + x) = k ! x"
    using nth_middle [of s pre1 k "45 # d @ r1"] g1 by simp
  have Ku: "\<And>x. x < length k \<Longrightarrow> is_upper (s ! (?i + x))"
    using K kinds_upper [OF g2] by simp
  have Kd: "s ! (?i + length k) = 45"
    using g1 by (simp add: nth_append)
  have D: "\<And>x. x < length d \<Longrightarrow> is_digit U (s ! (?i + length k + 1 + x))"
  proof -
    fix x assume x: "x < length d"
    have "s = (pre1 @ k @ [45]) @ d @ r1"
      using g1 by simp
    from nth_middle [OF this x] have "s ! (?i + length k + 1 + x) = d ! x"
      by (simp add: add.assoc)
    then show "is_digit U (s ! (?i + length k + 1 + x))"
      using dd x by simp
  qed
  have T: "\<And>x. x < length t \<Longrightarrow> is_upper (s ! (?j + x))"
  proof -
    fix x assume x: "x < length t"
    have "s = pre2 @ t @ ([45, 72, 82, 45] @ d2 @ r2)"
      using d1 by simp
    from nth_middle [OF this x] show "is_upper (s ! (?j + x))"
      using d3 x by simp
  qed
  have H: "s ! (?j + length t) = 45" "s ! (?j + length t + 1) = 72"
      "s ! (?j + length t + 2) = 82" "s ! (?j + length t + 3) = 45"
  proof -
    have e: "s = (pre2 @ t) @ [45, 72, 82, 45] @ (d2 @ r2)"
      using d1 by simp
    show "s ! (?j + length t) = 45"
      using nth_middle [OF e, of 0] by simp
    show "s ! (?j + length t + 1) = 72"
      using nth_middle [OF e, of 1] by simp
    show "s ! (?j + length t + 2) = 82"
      using nth_middle [OF e, of 2] by simp
    show "s ! (?j + length t + 3) = 45"
      using nth_middle [OF e, of 3] by simp
  qed
  have D2: "\<And>x. x < length d2 \<Longrightarrow> is_digit U (s ! (?j + length t + 4 + x))"
  proof -
    fix x assume x: "x < length d2"
    have e: "s = (pre2 @ t @ [45, 72, 82, 45]) @ d2 @ r2"
      using d1 by simp
    have idx: "length (pre2 @ t @ [45, 72, 82, 45]) + x = ?j + length t + 4 + x"
      by simp
    have "s ! (length (pre2 @ t @ [45, 72, 82, 45]) + x) = d2 ! x"
      using nth_middle [OF e x] .
    then have "s ! (?j + length t + 4 + x) = d2 ! x"
      unfolding idx .
    then show "is_digit U (s ! (?j + length t + 4 + x))"
      using dd2 x by simp
  qed
  show ?thesis
  proof (cases "?i < ?j")
    case True
    define x where "x = ?j - ?i"
    have jx: "?j = ?i + x" and xp: "0 < x"
      using True by (simp_all add: x_def)
    have uj: "is_upper (s ! ?j)"
      using T [of 0] d2 by simp
    have "x < length k"
    proof (rule ccontr)
      assume "\<not> x < length k"
      then consider "x = length k" | "length k + 1 \<le> x"
        by linarith
      then show False
      proof cases
        case 1
        have e: "?j = ?i + length k"
          using jx 1 by simp
        have "is_upper (s ! (?i + length k))"
          using uj unfolding e .
        then show ?thesis
          using Kd upper_class by metis
      next
        case 2
        define y where "y = x - (length k + 1)"
        have y: "x = length k + 1 + y" "y < length d"
          using 2 o2 jx by (simp_all add: y_def)
        have e: "?j = ?i + length k + 1 + y"
          using jx y by simp
        have "is_upper (s ! (?i + length k + 1 + y))"
          using uj unfolding e .
        moreover have "is_digit U (s ! (?i + length k + 1 + y))"
          using y(2) by (rule D)
        ultimately show ?thesis
          using upper_class by blast
      qed
    qed
    then have "is_upper (s ! (?i + (x - 1)))"
      using Ku [of "x - 1"] by simp
    moreover have "?i + (x - 1) = ?j - 1"
      using jx xp by simp
    ultimately have up: "is_upper (s ! (?j - 1))"
      by simp
    have ne: "pre2 \<noteq> []"
      using True by auto
    have "s ! (?j - 1) = last pre2"
      using d1 ne by (simp add: nth_append last_conv_nth)
    then have w1: "is_word U (last pre2)"
      using up upper_class by metis
    obtain c cs where tc: "t = c # cs"
      using d2 by (cases t) auto
    have w2: "is_word U c"
      using d3 tc upper_class by auto
    have "\<not> word_boundary U (last_opt pre2) (t @ [45, 72, 82, 45] @ d2 @ r2)"
      using w1 w2 ne tc by (simp add: word_boundary_def last_opt_def)
    with d5 show ?thesis by simp
  next
    case False
    define x where "x = ?i - ?j"
    have ix: "?i = ?j + x"
      using False by (simp add: x_def)
    have xb: "x < length t + 4 + length d2"
      using o1 ix by simp
    have ui: "is_upper (s ! ?i)"
      using Ku [OF k0] by simp
    have ui': "is_upper (s ! (?j + x))"
      using ui ix by simp
    consider (inT) "x < length t" | (dash1) "x = length t" | (h) "x = length t + 1"
      | (r) "x = length t + 2" | (dash2) "x = length t + 3" | (dig) "length t + 4 \<le> x"
      by linarith
    then show ?thesis
    proof cases
      case dash1
      have "is_upper (s ! (?j + length t))"
        using ui' unfolding dash1 .
      then show ?thesis
        using H(1) upper_class by metis
    next
      case dash2
      have e: "?j + x = ?j + length t + 3"
        using dash2 by simp
      have "is_upper (s ! (?j + length t + 3))"
        using ui' unfolding e .
      then show ?thesis
        using H(4) upper_class by metis
    next
      case dig
      define y where "y = x - (length t + 4)"
      have y: "x = length t + 4 + y" "y < length d2"
        using dig xb by (simp_all add: y_def)
      have e: "?j + x = ?j + length t + 4 + y"
        using y by simp
      have "is_upper (s ! (?j + length t + 4 + y))"
        using ui' unfolding e .
      moreover have "is_digit U (s ! (?j + length t + 4 + y))"
        using y(2) by (rule D2)
      ultimately show ?thesis
        using upper_class by blast
    next
      case r
      have e: "?i = ?j + length t + 2"
        using ix r by simp
      have "s ! ?i = 82"
        unfolding e using H(3) .
      then have "k ! 0 = 82"
        using K [OF k0] by simp
      then have "k ! 1 = 69"
        using kinds_shape [OF g2] by simp
      then have "s ! (?i + 1) = 69"
        using K [OF k1] by simp
      moreover have e2: "?i + 1 = ?j + length t + 3"
        using e by simp
      ultimately have "s ! (?j + length t + 3) = 69"
        unfolding e2 by simp
      then show ?thesis
        unfolding H(4) by simp
    next
      case h
      have e: "?i = ?j + length t + 1"
        using ix h by simp
      have "s ! ?i = 72"
        unfolding e using H(2) .
      then have "k ! 0 = 72"
        using K [OF k0] by simp
      then have k: "k = [72, 82]"
        using kinds_shape [OF g2] by simp
      have "drop (?i + 3) s = d @ r1"
        using g1 k by simp
      moreover have "drop (?i + 3) s = d2 @ r2"
      proof -
        have "?i + 3 = length (pre2 @ t @ [45, 72, 82, 45])"
          using ix h by simp
        then show ?thesis
          using d1 by (metis append.assoc append_eq_conv_conj)
      qed
      ultimately have eq2: "d @ r1 = d2 @ r2"
        by simp
      have "digits_tail U (d2 @ r2) = Some (d, r1)"
        using g3 unfolding eq2 .
      with d4 have "d = d2"
        by simp
      moreover have "length k = 2"
        using k by simp
      ultimately show ?thesis
        using e by simp
    next
      case inT
      consider (lt) "?i + length k < ?j + length t" | (gt) "?j + length t < ?i + length k"
        | (eq) "?i + length k = ?j + length t"
        by linarith
      then show ?thesis
      proof cases
        case lt
        define y where "y = ?i + length k - ?j"
        have y: "y < length t" and e: "?i + length k = ?j + y"
          using lt ix by (simp_all add: y_def)
        have "is_upper (s ! (?i + length k))"
          unfolding e using y by (rule T)
        then show ?thesis
          using Kd upper_class by metis
      next
        case gt
        define y where "y = ?j + length t - ?i"
        have y: "y < length k" and e: "?j + length t = ?i + y"
          using gt ix inT by (simp_all add: y_def)
        have "is_upper (s ! (?j + length t))"
          unfolding e using y by (rule Ku)
        then show ?thesis
          using H(1) upper_class by metis
      next
        case eq
        have "0 < length d"
          using ld by linarith
        then have "is_digit U (s ! (?i + length k + 1 + 0))"
          by (rule D)
        then have "is_digit U (s ! (?j + length t + 1))"
          unfolding eq by simp
        then show ?thesis
          using H(2) digit_class by metis
      qed
    qed
  qed
qed

lemma matches_nested:
  assumes "m \<in> set (finditer (ID_PATTERN_at U) text)"
    and "d \<in> set (finditer (DOMAIN_HR_PATTERN_at U) text)"
    and "m_start m < m_end d" and "m_start d < m_end m"
  shows "m_start d \<le> m_start m \<and> m_end m \<le> m_end d"
proof -
  obtain pre1 rest1 where s1: "text = pre1 @ rest1"
    and p1: "ID_PATTERN_at U (last_opt pre1) rest1 (length pre1) = Some m"
    using finditer_pos [OF assms(1)] by blast
  obtain pre2 rest2 where s2: "text = pre2 @ rest2"
    and p2: "DOMAIN_HR_PATTERN_at U (last_opt pre2) rest2 (length pre2) = Some d"
    using finditer_pos [OF assms(2)] by blast
  obtain k ds r1 where k: "k \<in> set ID_KINDS" and r1: "rest1 = k @ 45 # ds @ r1"
    and t1: "digits_tail U (ds @ r1) = Some (ds, r1)"
    and m: "m_start m = length pre1" "m_end m = length pre1 + length k + 1 + length ds"
    using ID_PATTERN_at_Some [OF p1] by blast
  obtain t ds2 r2 where t: "t \<noteq> []" "\<forall>c \<in> set t. is_upper c"
    and r2: "rest2 = t @ [45, 72, 82, 45] @ ds2 @ r2"
    and t2: "digits_tail U (ds2 @ r2) = Some (ds2, r2)"
    and d: "m_start d = length pre2" "m_end d = length pre2 + length t + 4 + length ds2"
    and wb: "word_boundary U (last_opt pre2) rest2"
    using DOMAIN_HR_PATTERN_at_Some [OF p2] by blast
  have g1: "text = pre1 @ k @ 45 # ds @ r1"
    using s1 r1 by simp
  have d1: "text = pre2 @ t @ [45, 72, 82, 45] @ ds2 @ r2"
    using s2 r2 by simp
  have wb': "word_boundary U (last_opt pre2) (t @ [45, 72, 82, 45] @ ds2 @ r2)"
    using wb r2 by simp
  have o1: "length pre1 < length pre2 + length t + 4 + length ds2"
    using assms(3) m d by simp
  have o2: "length pre2 < length pre1 + length k + 1 + length ds"
    using assms(4) m d by simp
  show ?thesis
    using overlap_nested [OF g1 k t1 d1 t(1) t(2) t2 wb' o1 o2] m d by simp
qed

lemma greedy_splits_hd:
  "\<forall>c \<in> set t. P c \<Longrightarrow> r = [] \<or> \<not> P (hd r) \<Longrightarrow> \<exists>xs. greedy_splits P (t @ r) = (t, r) # xs"
proof (induction t)
  case Nil
  then show ?case by (cases r) auto
next
  case (Cons a t)
  then obtain xs where "greedy_splits P (t @ r) = (t, r) # xs"
    by auto
  then show ?case
    using Cons.prems(1) by simp
qed

lemma digit_word: "is_digit U c \<Longrightarrow> is_word U c"
  by (auto simp: is_digit_def is_word_def split: if_splits)

lemma digits_tail_delimited:
  assumes "\<forall>c \<in> set d. is_digit U c" and "3 \<le> length d"
    and "post = [] \<or> \<not> is_word U (hd post)"
  shows "digits_tail U (d @ post) = Some (d, post)"
proof -
  have nd: "post = [] \<or> \<not> is_digit U (hd post)"
    using assms(3) digit_word by blast
  obtain xs where xs: "greedy_splits (is_digit U) (d @ post) = (d, post) # xs"
    using greedy_splits_hd [OF assms(1) nd] by blast
  have ne: "d \<noteq> []"
    using assms(2) by auto
  then have "is_word U (last d)"
    using assms(1) digit_word by simp
  then have "word_boundary U (Some (last d)) post"
    using assms(3) by (cases post) (auto simp: word_boundary_def)
  then have "digits_boundary U (d, post)"
    using assms(2) by (simp add: digits_boundary_def)
  then show ?thesis
    by (simp add: digits_tail_def xs)
qed

lemma after_literal_append: "after_literal p (p @ r) = Some r"
  by (induction p) auto

lemma domain_match_at_token:
  assumes t: "t \<noteq> []" "\<forall>c \<in> set t. is_upper c"
    and d: "\<forall>c \<in> set d. is_digit U c" "3 \<le> length d"
    and pre: "pre = [] \<or> \<not> is_word U (last pre)"
    and post: "post = [] \<or> \<not> is_word U (hd post)"
  shows "DOMAIN_HR_PATTERN_at U (last_opt pre) (t @ ustr ''-HR-'' @ d @ post) i
     = Some \<lparr>m_start = i, m_end = i + length t + 4 + length d, group1 = t, group2 = d\<rparr>"
proof -
  let ?r = "ustr ''-HR-'' @ d @ post"
  have "\<not> is_upper (hd ?r)"
    by (simp add: ustr_def is_upper_def)
  then obtain xs where xs: "greedy_splits is_upper (t @ ?r) = (t, ?r) # xs"
    using greedy_splits_hd [OF t(2), of ?r] by blast
  have dt: "digits_tail U (d @ post) = Some (d, post)"
    using d post by (rule digits_tail_delimited)
  have td: "try_domain U i (t, ?r)
     = Some \<lparr>m_start = i, m_end = i + length t + 4 + length d, group1 = t, group2 = d\<rparr>"
    using t(1) dt by (cases t) (simp_all add: try_domain_def after_literal_append)
  obtain c cs where tc: "t = c # cs"
    using t(1) by (cases t) auto
  have "is_word U c"
    using t(2) tc upper_class by auto
  then have wb: "word_boundary U (last_opt pre) (t @ ?r)"
    using pre tc by (auto simp: word_boundary_def last_opt_def)
  show ?thesis
    using wb td by (simp add: DOMAIN_HR_PATTERN_at_def xs)
qed

lemma finditer_from_complete:
  assumes "p (last_opt (pre @ mid)) rest (length (pre @ mid)) = Some m"
    and "prev = last_opt pre" and "i = length pre" and "skip \<le> length mid"
    and "\<And>a b m'. mid = a @ b \<Longrightarrow> b \<noteq> [] \<Longrightarrow>
           p (last_opt (pre @ a)) (b @ rest) (length (pre @ a)) = Some m' \<Longrightarrow>
           m_end m' \<le> length (pre @ mid)"
  shows "m \<in> set (finditer_from p prev (mid @ rest) i skip)"
  using assms
proof (induction mid arbitrary: pre prev i skip)
  case Nil
  then show ?case
    by (cases rest) auto
next
  case (Cons c mid)
  have tgt: "p (last_opt ((pre @ [c]) @ mid)) rest (length ((pre @ [c]) @ mid)) = Some m"
    using Cons.prems(1) by simp
  have pv: "Some c = last_opt (pre @ [c])"
    by (simp add: last_opt_def)
  have ix: "Suc i = length (pre @ [c])"
    using Cons.prems(3) by simp
  have nc: "\<And>a b m'. mid = a @ b \<Longrightarrow> b \<noteq> [] \<Longrightarrow>
           p (last_opt ((pre @ [c]) @ a)) (b @ rest) (length ((pre @ [c]) @ a)) = Some m' \<Longrightarrow>
           m_end m' \<le> length ((pre @ [c]) @ mid)"
  proof -
    fix a b m'
    assume ab: "mid = a @ b" and b: "b \<noteq> []"
      and q: "p (last_opt ((pre @ [c]) @ a)) (b @ rest) (length ((pre @ [c]) @ a)) = Some m'"
    have "c # mid = (c # a) @ b"
      using ab by simp
    moreover have "p (last_opt (pre @ c # a)) (b @ rest) (length (pre @ c # a)) = Some m'"
      using q by simp
    ultimately have "m_end m' \<le> length (pre @ c # mid)"
      using Cons.prems(5) b by blast
    then show "m_end m' \<le> length ((pre @ [c]) @ mid)"
      by simp
  qed
  have step: "\<And>sk. sk \<le> length mid \<Longrightarrow> m \<in> set (finditer_from p (Some c) (mid @ rest) (Suc i) sk)"
  proof -
    fix sk :: nat
    assume sk: "sk \<le> length mid"
    show "m \<in> set (finditer_from p (Some c) (mid @ rest) (Suc i) sk)"
    proof (rule Cons.IH [OF tgt pv ix sk])
      fix a b m'
      assume "mid = a @ b" and "b \<noteq> []"
        and "p (last_opt ((pre @ [c]) @ a)) (b @ rest) (length ((pre @ [c]) @ a)) = Some m'"
      then show "m_end m' \<le> length ((pre @ [c]) @ mid)"
        by (rule nc)
    qed
  qed
  show ?case
  proof (cases "0 < skip")
    case True
    have "skip - 1 \<le> length mid"
      using Cons.prems(4) by simp
    then show ?thesis
      using True step by simp
  next
    case False
    show ?thesis
    proof (cases "p prev ((c # mid) @ rest) i")
      case None
      then show ?thesis
        using False step [of 0] by simp
    next
      case (Some m')
      have "p (last_opt (pre @ [])) ((c # mid) @ rest) (length (pre @ [])) = Some m'"
        using Some Cons.prems(2,3) by simp
      then have "m_end m' \<le> length (pre @ c # mid)"
        using Cons.prems(5) [of "[]" "c # mid" m'] by simp
      then have "m_end m' - i - 1 \<le> length mid"
        using Cons.prems(3) by simp
      then have "m \<in> set (finditer_from p (Some c) (mid @ rest) (Suc i) (m_end m' - i - 1))"
        by (rule step)
      then show ?thesis
        using False Some by simp
    qed
  qed
qed

lemma finditer_complete:
  assumes "p (last_opt pre) rest (length pre) = Some m"
    and "\<And>a b m'. pre = a @ b \<Longrightarrow> b \<noteq> [] \<Longrightarrow>
           p (last_opt a) (b @ rest) (length a) = Some m' \<Longrightarrow> m_end m' \<le> length pre"
  shows "m \<in> set (finditer p (pre @ rest))"
  unfolding finditer_def
  using finditer_from_complete [of p "[]" pre rest m None 0 0] assms
  by (simp add: last_opt_def)


lemma word_HR: "is_word U 72" "is_word U 82"
  by (simp_all add: is_word_def)

lemma domain_no_crossing:
  assumes t: "t \<noteq> []" "\<forall>c \<in> set t. is_upper c"
    and b: "b \<noteq> []" "\<not> is_word U (last b)"
    and m: "DOMAIN_HR_PATTERN_at U prev (b @ t @ [45, 72, 82, 45] @ post) i = Some m'"
  shows "m_end m' \<le> i + length b"
proof (rule ccontr)
  assume neg: "\<not> m_end m' \<le> i + length b"
  define s where "s = b @ t @ [45, 72, 82, 45] @ post"
  obtain t2 d2 r2 where t2: "t2 \<noteq> []" "\<forall>c \<in> set t2. is_upper c"
    and s2: "s = t2 @ [45, 72, 82, 45] @ d2 @ r2"
    and dt: "digits_tail U (d2 @ r2) = Some (d2, r2)"
    and e: "m_end m' = i + length t2 + 4 + length d2"
    using DOMAIN_HR_PATTERN_at_Some [OF m] unfolding s_def by blast
  have ld2: "3 \<le> length d2" and dd2: "\<forall>c \<in> set d2. is_digit U c"
    using digits_tail_Some [OF dt] by simp_all
  have lb: "0 < length b"
    using b(1) by simp
  have lt: "0 < length t"
    using t(1) by simp
  define x where "x = length b - 1"
  have bx: "length b = x + 1"
    using lb by (simp add: x_def)
  have xb: "x + 1 < length t2 + 4 + length d2"
    using neg e bx by simp
  have B: "\<not> is_word U (s ! x)"
  proof -
    have "s ! x = b ! x"
      unfolding s_def using bx by (simp add: nth_append)
    also have "\<dots> = last b"
      using b(1) by (simp add: last_conv_nth x_def)
    finally show ?thesis
      using b(2) by simp
  qed
  have T: "\<And>y. y < length t \<Longrightarrow> is_upper (s ! (length b + y))"
  proof -
    fix y assume y: "y < length t"
    have "s = b @ t @ ([45, 72, 82, 45] @ post)"
      by (simp add: s_def)
    from nth_middle [OF this y] show "is_upper (s ! (length b + y))"
      using t(2) y by simp
  qed
  have TH: "s ! (length b + length t) = 45" "s ! (length b + length t + 1) = 72"
  proof -
    have q: "s = (b @ t) @ [45, 72, 82, 45] @ post"
      by (simp add: s_def)
    show "s ! (length b + length t) = 45"
      using nth_middle [OF q, of 0] by simp
    show "s ! (length b + length t + 1) = 72"
      using nth_middle [OF q, of 1] by simp
  qed
  have A: "\<And>y. y < length t2 \<Longrightarrow> is_upper (s ! y)"
  proof -
    fix y assume y: "y < length t2"
    have "s ! y = t2 ! y"
      unfolding s2 using y by (simp add: nth_append)
    then show "is_upper (s ! y)"
      using t2(2) y by simp
  qed
  have H: "s ! (length t2) = 45" "s ! (length t2 + 1) = 72"
      "s ! (length t2 + 2) = 82" "s ! (length t2 + 3) = 45"
  proof -
    have q: "s = t2 @ [45, 72, 82, 45] @ (d2 @ r2)"
      using s2 by simp
    show "s ! (length t2) = 45"
      using nth_middle [OF q, of 0] by simp
    show "s ! (length t2 + 1) = 72"
      using nth_middle [OF q, of 1] by simp
    show "s ! (length t2 + 2) = 82"
      using nth_middle [OF q, of 2] by simp
    show "s ! (length t2 + 3) = 45"
      using nth_middle [OF q, of 3] by simp
  qed
  have D2: "\<And>y. y < length d2 \<Longrightarrow> is_digit U (s ! (length t2 + 4 + y))"
  proof -
    fix y assume y: "y < length d2"
    have q: "s = (t2 @ [45, 72, 82, 45]) @ d2 @ r2"
      using s2 by simp
    have idx: "length (t2 @ [45, 72, 82, 45]) + y = length t2 + 4 + y"
      by simp
    have "s ! (length (t2 @ [45, 72, 82, 45]) + y) = d2 ! y"
      using nth_middle [OF q y] .
    then have "s ! (length t2 + 4 + y) = d2 ! y"
      unfolding idx .
    then show "is_digit U (s ! (length t2 + 4 + y))"
      using dd2 y by simp
  qed
  have d0: "0 < length d2"
    using ld2 by linarith
  consider (inT) "x < length t2" | (dash1) "x = length t2" | (h) "x = length t2 + 1"
    | (r) "x = length t2 + 2" | (dash2) "x = length t2 + 3" | (dig) "length t2 + 4 \<le> x"
    by linarith
  then show False
  proof cases
    case inT
    then have "is_upper (s ! x)"
      by (rule A)
    then show False
      using B upper_class by blast
  next
    case h
    then show False
      using B H(2) word_HR(1) by simp
  next
    case r
    then show False
      using B H(3) word_HR(2) by simp
  next
    case dig
    define y where "y = x - (length t2 + 4)"
    have y: "x = length t2 + 4 + y" "y < length d2"
      using dig xb by (simp_all add: y_def)
    have "is_digit U (s ! x)"
      unfolding y(1) using y(2) by (rule D2)
    then show False
      using B digit_word by blast
  next
    case dash2
    have q: "length b = length t2 + 4 + 0"
      using bx dash2 by simp
    have "is_digit U (s ! (length b))"
      unfolding q using d0 by (rule D2)
    moreover have "is_upper (s ! (length b + 0))"
      using lt by (rule T)
    ultimately show False
      using upper_class by simp
  next
    case dash1
    have q: "length b = length t2 + 1"
      using bx dash1 by simp
    have e1: "length b + 1 = length t2 + 2" and e2: "length b + 2 = length t2 + 3"
      and e3: "length b + 3 = length t2 + 4 + 0"
      using q by simp_all
    have c1: "s ! (length b + 1) = 82"
      unfolding e1 by (rule H(3))
    have c2: "s ! (length b + 2) = 45"
      unfolding e2 by (rule H(4))
    have c3: "is_digit U (s ! (length b + 3))"
      unfolding e3 using d0 by (rule D2)
    consider (one) "length t = 1" | (two) "length t = 2" | (more) "2 < length t"
      using lt by linarith
    then show False
    proof cases
      case one
      have "s ! (length b + 1) = 45"
        using TH(1) unfolding one .
      then show False
        using c1 by simp
    next
      case two
      have e4: "length b + length t + 1 = length b + 3"
        using two by simp
      have "s ! (length b + 3) = 72"
        using TH(2) unfolding e4 .
      then show False
        using c3 digit_class by metis
    next
      case more
      then have "is_upper (s ! (length b + 2))"
        by (rule T)
      then show False
        using c2 upper_class by metis
    qed
  qed
qed


lemma token_domain_match:
  assumes t: "t \<noteq> []" "\<forall>c \<in> set t. is_upper c"
    and d: "\<forall>c \<in> set d. is_digit U c" "3 \<le> length d"
    and pre: "pre = [] \<or> \<not> is_word U (last pre)"
    and post: "post = [] \<or> \<not> is_word U (hd post)"
  shows "\<lparr>m_start = length pre, m_end = length pre + length t + 4 + length d,
           group1 = t, group2 = d\<rparr>
     \<in> set (finditer (DOMAIN_HR_PATTERN_at U) (pre @ t @ ustr ''-HR-'' @ d @ post))"
proof (rule finditer_complete)
  show "DOMAIN_HR_PATTERN_at U (last_opt pre) (t @ ustr ''-HR-'' @ d @ post) (length pre)
     = Some \<lparr>m_start = length pre, m_end = length pre + length t + 4 + length d,
              group1 = t, group2 = d\<rparr>"
    using t d pre post by (rule domain_match_at_token)
next
  fix a b m'
  assume ab: "pre = a @ b" and b: "b \<noteq> []"
    and m: "DOMAIN_HR_PATTERN_at U (last_opt a) (b @ t @ ustr ''-HR-'' @ d @ post) (length a)
       = Some m'"
  have nw: "\<not> is_word U (last b)"
    using pre ab b by simp
  have m2: "DOMAIN_HR_PATTERN_at U (last_opt a) (b @ t @ [45, 72, 82, 45] @ (d @ post)) (length a)
       = Some m'"
    using m by (simp add: ustr_def)
  have "m_end m' \<le> length a + length b"
    using t b nw m2 by (rule domain_no_crossing)
  then show "m_end m' \<le> length pre"
    using ab by simp
qed

lemma DOMAIN_HR_PATTERN_at_group1:
  assumes "DOMAIN_HR_PATTERN_at U prev rest i = Some m"
  shows "group1 m \<noteq> [] \<and> (\<forall>c \<in> set (group1 m). is_upper c)"
proof -
  have "first_some (try_domain U i) (greedy_splits is_upper rest) = Some m"
    using assms by (auto simp: DOMAIN_HR_PATTERN_at_def split: if_splits)
  then obtain tr where tr: "tr \<in> set (greedy_splits is_upper rest)" and td: "try_domain U i tr = Some m"
    using first_some_Some by fastforce
  obtain t r1 where trp: "tr = (t, r1)"
    by (cases tr) auto
  have up: "\<forall>c \<in> set t. is_upper c"
    using greedy_splits_sound [of t r1 is_upper rest] tr trp by auto
  have "1 \<le> length t \<and> group1 m = t"
    using td trp by (auto simp: try_domain_def split: option.splits if_splits)
  then show ?thesis
    using up by auto
qed

lemma domain_id_not_generic_hr:
  assumes "g \<noteq> []" and "\<forall>c \<in> set g. is_upper c" and "\<forall>c \<in> set ds. is_digit U c"
  shows "g @ ustr ''-HR-'' @ g2 \<noteq> ustr ''HR-'' @ ds"
proof
  assume eq: "g @ ustr ''-HR-'' @ g2 = ustr ''HR-'' @ ds"
  obtain c1 g' where g: "g = c1 # g'"
    using assms(1) by (cases g) auto
  show False
  proof (cases g')
    case Nil
    then show False
      using eq g by (simp add: ustr_def)
  next
    case c2: (Cons c2 g'')
    show False
    proof (cases g'')
      case Nil
      then have "72 \<in> set ds"
        using eq g c2 by (auto simp: ustr_def)
      then show False
        using assms(3) digit_class by blast
    next
      case (Cons c3 cs)
      then have "c3 = 45"
        using eq g c2 by (simp add: ustr_def)
      moreover have "is_upper c3"
        using assms(2) g c2 Cons by simp
      ultimately show False
        by (simp add: is_upper_def)
    qed
  qed
qed

text \<open>
  C2, amended. The identifiers returned by \<open>extract_ids\<close> are those of the
  domain-prefixed matches and those of the generic matches whose span lies inside no
  domain-prefixed match: a generic match inside the span of a domain-prefixed match
  adds nothing. A generic match and a domain-prefixed match that share any text are
  nested in this way, so no text is counted for both. In particular, take a text in
  which a domain-prefixed identifier (capital letters, \<open>-HR-\<close>, three or more digits,
  such as \<open>SEC-HR-001\<close>) occurs with no word character directly before or after it.
  The returned set contains that identifier; every generic match that shares text with
  the occurrence is suppressed; and the generic \<open>HR-NNN\<close> with the same digits is
  in the set only when a generic match lying wholly outside the occurrence yields it.
\<close>

theorem extract_ids_no_double_count:
  "extract_ids U text =
     generic_id ` {m \<in> set (finditer (ID_PATTERN_at U) text).
                    \<not> (\<exists>d \<in> set (finditer (DOMAIN_HR_PATTERN_at U) text).
                          m_start d \<le> m_start m \<and> m_end m \<le> m_end d)}
     \<union> domain_id ` set (finditer (DOMAIN_HR_PATTERN_at U) text)
   \<and> (\<forall>m \<in> set (finditer (ID_PATTERN_at U) text).
        \<forall>d \<in> set (finditer (DOMAIN_HR_PATTERN_at U) text).
          m_start m < m_end d \<and> m_start d < m_end m
          \<longrightarrow> m_start d \<le> m_start m \<and> m_end m \<le> m_end d)
   \<and> (t \<noteq> [] \<and> (\<forall>c \<in> set t. is_upper c) \<and> 3 \<le> length ds \<and> (\<forall>c \<in> set ds. is_digit U c)
        \<and> (pre = [] \<or> \<not> is_word U (last pre)) \<and> (post = [] \<or> \<not> is_word U (hd post))
        \<and> text = pre @ t @ ustr ''-HR-'' @ ds @ post
      \<longrightarrow> t @ ustr ''-HR-'' @ ds \<in> extract_ids U text
        \<and> (\<forall>m \<in> set (finditer (ID_PATTERN_at U) text).
              m_start m < length pre + length t + 4 + length ds \<and> length pre < m_end m
              \<longrightarrow> is_inside_domain_hr (m_start m) (m_end m) (domain_hr_spans U text))
        \<and> (ustr ''HR-'' @ ds \<in> extract_ids U text
              \<longrightarrow> (\<exists>m \<in> set (finditer (ID_PATTERN_at U) text).
                    generic_id m = ustr ''HR-'' @ ds
                    \<and> (m_end m \<le> length pre
                        \<or> length pre + length t + 4 + length ds \<le> m_start m))))"
proof -
  let ?G = "finditer (ID_PATTERN_at U) text" and ?D = "finditer (DOMAIN_HR_PATTERN_at U) text"
  have general: "extract_ids U text =
     generic_id ` {m \<in> set ?G. \<not> (\<exists>d \<in> set ?D. m_start d \<le> m_start m \<and> m_end m \<le> m_end d)}
     \<union> domain_id ` set ?D"
    by (simp add: extract_ids_def Let_def fold_add_generic fold_add_domain
        domain_hr_spans_def is_inside_domain_hr_matches)
  have nested: "\<forall>m \<in> set ?G. \<forall>d \<in> set ?D.
          m_start m < m_end d \<and> m_start d < m_end m
          \<longrightarrow> m_start d \<le> m_start m \<and> m_end m \<le> m_end d"
    using matches_nested by blast
  have inside: "\<And>m. is_inside_domain_hr (m_start m) (m_end m) (domain_hr_spans U text)
      = (\<exists>d \<in> set ?D. m_start d \<le> m_start m \<and> m_end m \<le> m_end d)"
    by (simp add: domain_hr_spans_def is_inside_domain_hr_matches)
  have token: "t @ ustr ''-HR-'' @ ds \<in> extract_ids U text
        \<and> (\<forall>m \<in> set ?G.
              m_start m < length pre + length t + 4 + length ds \<and> length pre < m_end m
              \<longrightarrow> is_inside_domain_hr (m_start m) (m_end m) (domain_hr_spans U text))
        \<and> (ustr ''HR-'' @ ds \<in> extract_ids U text
              \<longrightarrow> (\<exists>m \<in> set ?G. generic_id m = ustr ''HR-'' @ ds
                    \<and> (m_end m \<le> length pre
                        \<or> length pre + length t + 4 + length ds \<le> m_start m)))"
    if t: "t \<noteq> []" "\<forall>c \<in> set t. is_upper c" and d: "3 \<le> length ds" "\<forall>c \<in> set ds. is_digit U c"
      and pre: "pre = [] \<or> \<not> is_word U (last pre)" and post: "post = [] \<or> \<not> is_word U (hd post)"
      and tx: "text = pre @ t @ ustr ''-HR-'' @ ds @ post"
  proof -
    let ?m0 = "\<lparr>m_start = length pre, m_end = length pre + length t + 4 + length ds,
                 group1 = t, group2 = ds\<rparr>"
    have m0: "?m0 \<in> set ?D"
      unfolding tx using t d(2) d(1) pre post by (rule token_domain_match)
    have "domain_id ?m0 \<in> extract_ids U text"
      using m0 general by blast
    then have a: "t @ ustr ''-HR-'' @ ds \<in> extract_ids U text"
      by (simp add: domain_id_def)
    have b: "\<forall>m \<in> set ?G.
              m_start m < length pre + length t + 4 + length ds \<and> length pre < m_end m
              \<longrightarrow> is_inside_domain_hr (m_start m) (m_end m) (domain_hr_spans U text)"
    proof (intro ballI impI)
      fix m
      assume m: "m \<in> set ?G"
        and o: "m_start m < length pre + length t + 4 + length ds \<and> length pre < m_end m"
      have "m_start ?m0 \<le> m_start m \<and> m_end m \<le> m_end ?m0"
        using matches_nested [OF m m0] o by simp
      then show "is_inside_domain_hr (m_start m) (m_end m) (domain_hr_spans U text)"
        unfolding inside using m0 by blast
    qed
    have c: "ustr ''HR-'' @ ds \<in> extract_ids U text
              \<longrightarrow> (\<exists>m \<in> set ?G. generic_id m = ustr ''HR-'' @ ds
                    \<and> (m_end m \<le> length pre
                        \<or> length pre + length t + 4 + length ds \<le> m_start m))"
    proof
      assume "ustr ''HR-'' @ ds \<in> extract_ids U text"
      then consider (gen) m where "m \<in> set ?G" "generic_id m = ustr ''HR-'' @ ds"
          "\<not> (\<exists>d \<in> set ?D. m_start d \<le> m_start m \<and> m_end m \<le> m_end d)"
        | (dom) d' where "d' \<in> set ?D" "domain_id d' = ustr ''HR-'' @ ds"
        using general by auto
      then show "\<exists>m \<in> set ?G. generic_id m = ustr ''HR-'' @ ds
                    \<and> (m_end m \<le> length pre
                        \<or> length pre + length t + 4 + length ds \<le> m_start m)"
      proof cases
        case gen
        have "\<not> is_inside_domain_hr (m_start m) (m_end m) (domain_hr_spans U text)"
          unfolding inside using gen(3) .
        then have "\<not> (m_start m < length pre + length t + 4 + length ds \<and> length pre < m_end m)"
          using b gen(1) by blast
        then have "m_end m \<le> length pre \<or> length pre + length t + 4 + length ds \<le> m_start m"
          by linarith
        then show ?thesis
          using gen(1,2) by blast
      next
        case dom
        obtain p r where "DOMAIN_HR_PATTERN_at U (last_opt p) r (length p) = Some d'"
          using finditer_pos [OF dom(1)] by blast
        then have "group1 d' \<noteq> [] \<and> (\<forall>c \<in> set (group1 d'). is_upper c)"
          by (rule DOMAIN_HR_PATTERN_at_group1)
        then have "group1 d' @ ustr ''-HR-'' @ group2 d' \<noteq> ustr ''HR-'' @ ds"
          using d(2) domain_id_not_generic_hr by blast
        then show ?thesis
          using dom(2) by (simp add: domain_id_def)
      qed
    qed
    from a b c show ?thesis
      by (intro conjI)
  qed
  from general nested token show ?thesis
    by (intro conjI impI) blast+
qed

theorem extract_ids_no_double_count_witness:
  "extract_ids ascii_only (ustr ''see SEC-HR-001, HR-002'') = {ustr ''HR-002'', ustr ''SEC-HR-001''}
   \<and> ustr ''SEC-HR-001'' \<in> extract_ids ascii_only (ustr ''see SEC-HR-001, HR-002'')
   \<and> ustr ''HR-001'' \<notin> extract_ids ascii_only (ustr ''see SEC-HR-001, HR-002'')"
proof -
  let ?text = "ustr ''see SEC-HR-001, HR-002''"
  have v: "extract_ids ascii_only ?text = {ustr ''HR-002'', ustr ''SEC-HR-001''}"
    by (simp add: ev insert_commute)
  have h: "ustr ''SEC'' \<noteq> [] \<and> (\<forall>c \<in> set (ustr ''SEC''). is_upper c)
      \<and> 3 \<le> length (ustr ''001'') \<and> (\<forall>c \<in> set (ustr ''001''). is_digit ascii_only c)
      \<and> (ustr ''see '' = [] \<or> \<not> is_word ascii_only (last (ustr ''see '')))
      \<and> (ustr '', HR-002'' = [] \<or> \<not> is_word ascii_only (hd (ustr '', HR-002'')))
      \<and> ?text = ustr ''see '' @ ustr ''SEC'' @ ustr ''-HR-'' @ ustr ''001'' @ ustr '', HR-002''"
    by (simp add: ev)
  have "ustr ''SEC'' @ ustr ''-HR-'' @ ustr ''001'' \<in> extract_ids ascii_only ?text"
    using extract_ids_no_double_count
      [of ascii_only ?text "ustr ''SEC''" "ustr ''001''" "ustr ''see ''" "ustr '', HR-002''"] h
    by blast
  then have i: "ustr ''SEC-HR-001'' \<in> extract_ids ascii_only ?text"
    by (simp add: ustr_def)
  have "ustr ''HR-001'' \<notin> {ustr ''HR-002'', ustr ''SEC-HR-001''}"
    by (simp add: ustr_def)
  then have n: "ustr ''HR-001'' \<notin> extract_ids ascii_only ?text"
    using v by simp
  from v i n show ?thesis
    by (intro conjI)
qed

text \<open>
  C2 as stated fails for a text that contains \<open>SEC-HR-001\<close> next to a word character:
  after an underscore there is no word boundary before \<open>SEC\<close>, the domain-prefixed
  pattern does not match, and the generic pattern yields \<open>HR-001\<close> from the same
  characters.
\<close>

theorem extract_ids_adjacent_word_char_counterexample:
  "extract_ids ascii_only (ustr ''_SEC-HR-001'') = {ustr ''HR-001''}
   \<and> ustr ''SEC-HR-001'' \<notin> extract_ids ascii_only (ustr ''_SEC-HR-001'')
   \<and> ustr ''HR-001'' \<in> extract_ids ascii_only (ustr ''_SEC-HR-001'')"
proof -
  have v: "extract_ids ascii_only (ustr ''_SEC-HR-001'') = {ustr ''HR-001''}"
    by (simp add: ev)
  have "ustr ''SEC-HR-001'' \<notin> {ustr ''HR-001''}"
    by (simp add: ustr_def)
  then show ?thesis
    using v by simp
qed

lemma record_id_subset: "fst acc \<subseteq> snd acc \<Longrightarrow> fst (record_id U s x acc) \<subseteq> snd (record_id U s x acc)"
  by (auto simp: record_id_def Let_def)

lemma fold_generic_defined_subset:
  "fst acc \<subseteq> snd acc \<Longrightarrow>
   fst (fold (generic_defined U s sp) ms acc) \<subseteq> snd (fold (generic_defined U s sp) ms acc)"
proof (induction ms arbitrary: acc)
  case Nil
  then show ?case by simp
next
  case (Cons m ms)
  have "fst (generic_defined U s sp m acc) \<subseteq> snd (generic_defined U s sp m acc)"
    using Cons.prems record_id_subset [of acc U s "generic_id m"]
    by (simp add: generic_defined_def)
  then show ?case using Cons.IH by simp
qed

lemma fold_domain_defined_subset:
  "fst acc \<subseteq> snd acc \<Longrightarrow>
   fst (fold (domain_defined U s) ms acc) \<subseteq> snd (fold (domain_defined U s) ms acc)"
proof (induction ms arbitrary: acc)
  case Nil
  then show ?case by simp
next
  case (Cons m ms)
  have "fst (domain_defined U s m acc) \<subseteq> snd (domain_defined U s m acc)"
    using Cons.prems record_id_subset [of acc U s "domain_id m"]
    by (simp add: domain_defined_def)
  then show ?case using Cons.IH by simp
qed

lemma defined_ids_line_subset:
  "fst acc \<subseteq> snd acc \<Longrightarrow> fst (defined_ids_line U line acc) \<subseteq> snd (defined_ids_line U line acc)"
  unfolding defined_ids_line_def Let_def
  by (intro fold_domain_defined_subset fold_generic_defined_subset)

lemma fold_defined_ids_line_subset:
  "fst acc \<subseteq> snd acc \<Longrightarrow>
   fst (fold (defined_ids_line U) ls acc) \<subseteq> snd (fold (defined_ids_line U) ls acc)"
  by (induction ls arbitrary: acc) (simp_all add: defined_ids_line_subset)

text \<open>
  C10. In the pair \<open>(defined, all)\<close> returned by \<open>extract_defined_ids\<close>, every
  identifier of \<open>defined\<close> is in \<open>all\<close>, whichever of the two forms it has.
\<close>

theorem extract_defined_ids_subset:
  "fst (extract_defined_ids U text) \<subseteq> snd (extract_defined_ids U text)"
  unfolding extract_defined_ids_def by (rule fold_defined_ids_line_subset) simp

theorem extract_defined_ids_subset_witness:
  "extract_defined_ids ascii_only (ustr ''- SEC-HR-001 x\<newline>see DEC-002'')
     = ({ustr ''SEC-HR-001''}, {ustr ''DEC-002'', ustr ''SEC-HR-001''})
   \<and> fst (extract_defined_ids ascii_only (ustr ''- SEC-HR-001 x\<newline>see DEC-002''))
     \<subseteq> snd (extract_defined_ids ascii_only (ustr ''- SEC-HR-001 x\<newline>see DEC-002''))"
proof -
  have "extract_defined_ids ascii_only (ustr ''- SEC-HR-001 x\<newline>see DEC-002'')
     = ({ustr ''SEC-HR-001''}, {ustr ''DEC-002'', ustr ''SEC-HR-001''})"
    by (simp add: ev)
  then show ?thesis
    using extract_defined_ids_subset [of ascii_only "ustr ''- SEC-HR-001 x\<newline>see DEC-002''"]
    by simp
qed

section \<open>Properties of check 2\<close>

lemma startswith_append: "startswith (p @ s) p"
  by (induction p) simp_all

lemma is_dangling_issue_dangling_msg: "is_dangling_issue (dangling_msg d)"
  by (simp add: is_dangling_issue_def dangling_msg_def startswith_append)

lemma is_dangling_issue_duplicate_msg: "\<not> is_dangling_issue (duplicate_msg k c)"
  by (simp add: is_dangling_issue_def duplicate_msg_def ustr_def)

lemma issues_fold_report_duplicate:
  "issues (fold report_duplicate cnt r) =
     issues r @ map (\<lambda>kc. duplicate_msg (fst kc) (snd kc)) (filter (\<lambda>kc. snd kc > 1) cnt)"
  by (induction cnt arbitrary: r) (simp_all add: report_duplicate_def fail_def)

lemma issues_fold_report_dangling:
  "issues (fold report_dangling ds r) = issues r @ map dangling_msg ds"
  by (induction ds arbitrary: r) (simp_all add: report_dangling_def fail_def)

lemma filter_dangling_duplicates:
  "filter is_dangling_issue (map (\<lambda>kc. duplicate_msg (fst kc) (snd kc)) xs) = []"
  by (induction xs) (simp_all add: is_dangling_issue_duplicate_msg)

lemma filter_dangling_danglings:
  "filter is_dangling_issue (map dangling_msg ds) = map dangling_msg ds"
  by (induction ds) (simp_all add: is_dangling_issue_dangling_msg)

lemma record_id_finite: "finite (snd acc) \<Longrightarrow> finite (snd (record_id U s x acc))"
  by (simp add: record_id_def Let_def)

lemma fold_generic_defined_finite:
  "finite (snd acc) \<Longrightarrow> finite (snd (fold (generic_defined U s sp) ms acc))"
  by (induction ms arbitrary: acc) (simp_all add: generic_defined_def record_id_finite)

lemma fold_domain_defined_finite:
  "finite (snd acc) \<Longrightarrow> finite (snd (fold (domain_defined U s) ms acc))"
  by (induction ms arbitrary: acc) (simp_all add: domain_defined_def record_id_finite)

lemma defined_ids_line_finite:
  "finite (snd acc) \<Longrightarrow> finite (snd (defined_ids_line U line acc))"
  unfolding defined_ids_line_def Let_def
  by (intro fold_domain_defined_finite fold_generic_defined_finite)

lemma fold_defined_ids_line_finite:
  "finite (snd acc) \<Longrightarrow> finite (snd (fold (defined_ids_line U) ls acc))"
  by (induction ls arbitrary: acc) (simp_all add: defined_ids_line_finite)

lemma extract_defined_ids_finite: "finite (snd (extract_defined_ids U text))"
  unfolding extract_defined_ids_def by (rule fold_defined_ids_line_finite) simp

lemma dangling_guard:
  "(if X \<noteq> {} then fold report_dangling (take 10 (sorted_list_of_set X)) r else r)
     = fold report_dangling (take 10 (sorted_list_of_set X)) r"
  by simp

lemma diff_twice: "A - B - B = A - (B :: 'a set)"
  by blast

lemma check_2_issues:
  "issues (check_2_id_integrity U rfc) =
     map (\<lambda>kc. duplicate_msg (fst kc) (snd kc))
         (filter (\<lambda>kc. snd kc > 1) (fold (def_count_line U) (split_nl rfc) []))
     @ map dangling_msg
         (take 10 (sorted_list_of_set
            (snd (extract_defined_ids U rfc) - fst (extract_defined_ids U rfc))))"
  unfolding check_2_id_integrity_def Let_def split_beta dangling_guard diff_twice
  by (simp add: issues_fold_report_duplicate issues_fold_report_dangling new_result_def)

text \<open>
  C8, amended. For every document text check 2 is a total function of the text; the
  dangling-reference issues it reports are those of the first ten dangling identifiers
  in sorted order, one issue each: a document with \<open>N\<close> distinct dangling references
  yields \<open>min N 10\<close> dangling-reference issues.
\<close>

theorem check_2_dangling_capped:
  "filter is_dangling_issue (issues (check_2_id_integrity U rfc)) =
     map dangling_msg
       (take 10 (sorted_list_of_set
          (snd (extract_defined_ids U rfc) - fst (extract_defined_ids U rfc))))
   \<and> length (filter is_dangling_issue (issues (check_2_id_integrity U rfc))) =
     min (card (snd (extract_defined_ids U rfc) - fst (extract_defined_ids U rfc))) 10"
proof -
  let ?D = "snd (extract_defined_ids U rfc) - fst (extract_defined_ids U rfc)"
  have fin: "finite ?D"
    using extract_defined_ids_finite [of U rfc] by simp
  have f: "filter is_dangling_issue (issues (check_2_id_integrity U rfc)) =
     map dangling_msg (take 10 (sorted_list_of_set ?D))"
    by (simp add: check_2_issues filter_dangling_duplicates filter_dangling_danglings)
  have "length (sorted_list_of_set ?D) = card ?D"
    using fin by simp
  then have "length (map dangling_msg (take 10 (sorted_list_of_set ?D))) = min (card ?D) 10"
    by simp
  with f show ?thesis by simp
qed

theorem check_2_dangling_capped_witness:
  "extract_defined_ids ascii_only (ustr ''DEC-001 is defined\<newline>see DEC-002 and REQ-003'')
     = ({ustr ''DEC-001''}, {ustr ''REQ-003'', ustr ''DEC-002'', ustr ''DEC-001''})
   \<and> length (filter is_dangling_issue (issues (check_2_id_integrity ascii_only
        (ustr ''DEC-001 is defined\<newline>see DEC-002 and REQ-003'')))) = 2"
proof -
  have e: "extract_defined_ids ascii_only (ustr ''DEC-001 is defined\<newline>see DEC-002 and REQ-003'')
     = ({ustr ''DEC-001''}, {ustr ''REQ-003'', ustr ''DEC-002'', ustr ''DEC-001''})"
    by (simp add: ev)
  have c: "card ({ustr ''REQ-003'', ustr ''DEC-002'', ustr ''DEC-001''} - {ustr ''DEC-001''}) = 2"
    by (simp add: ustr_def)
  show ?thesis
    using check_2_dangling_capped
      [of ascii_only "ustr ''DEC-001 is defined\<newline>see DEC-002 and REQ-003''"]
    unfolding e using c by simp
qed

text \<open>
  C8 as stated fails: a document with eleven distinct dangling references yields ten
  dangling-reference issues.
\<close>

theorem check_2_eleven_dangling_counterexample:
  "extract_defined_ids ascii_only
      (ustr ''see DEC-001 DEC-002 DEC-003 DEC-004 DEC-005 DEC-006 DEC-007 DEC-008 DEC-009 DEC-010 DEC-011'')
     = ({}, {ustr ''DEC-011'', ustr ''DEC-010'', ustr ''DEC-009'', ustr ''DEC-008'',
             ustr ''DEC-007'', ustr ''DEC-006'', ustr ''DEC-005'', ustr ''DEC-004'',
             ustr ''DEC-003'', ustr ''DEC-002'', ustr ''DEC-001''})
   \<and> card (snd (extract_defined_ids ascii_only
      (ustr ''see DEC-001 DEC-002 DEC-003 DEC-004 DEC-005 DEC-006 DEC-007 DEC-008 DEC-009 DEC-010 DEC-011''))
       - fst (extract_defined_ids ascii_only
      (ustr ''see DEC-001 DEC-002 DEC-003 DEC-004 DEC-005 DEC-006 DEC-007 DEC-008 DEC-009 DEC-010 DEC-011'')))
     = 11
   \<and> length (filter is_dangling_issue (issues (check_2_id_integrity ascii_only
      (ustr ''see DEC-001 DEC-002 DEC-003 DEC-004 DEC-005 DEC-006 DEC-007 DEC-008 DEC-009 DEC-010 DEC-011''))))
     = 10"
proof -
  let ?doc = "ustr ''see DEC-001 DEC-002 DEC-003 DEC-004 DEC-005 DEC-006 DEC-007 DEC-008 DEC-009 DEC-010 DEC-011''"
  have e: "extract_defined_ids ascii_only ?doc
     = ({}, {ustr ''DEC-011'', ustr ''DEC-010'', ustr ''DEC-009'', ustr ''DEC-008'',
             ustr ''DEC-007'', ustr ''DEC-006'', ustr ''DEC-005'', ustr ''DEC-004'',
             ustr ''DEC-003'', ustr ''DEC-002'', ustr ''DEC-001''})"
    by (simp add: ev)
  have c: "card {ustr ''DEC-011'', ustr ''DEC-010'', ustr ''DEC-009'', ustr ''DEC-008'',
             ustr ''DEC-007'', ustr ''DEC-006'', ustr ''DEC-005'', ustr ''DEC-004'',
             ustr ''DEC-003'', ustr ''DEC-002'', ustr ''DEC-001''} = 11"
    by (simp add: ustr_def)
  have fin: "finite (snd (extract_defined_ids ascii_only ?doc) - fst (extract_defined_ids ascii_only ?doc))"
    unfolding e by simp
  have "length (filter is_dangling_issue (issues (check_2_id_integrity ascii_only ?doc)))
      = length (take 10 (sorted_list_of_set
          (snd (extract_defined_ids ascii_only ?doc) - fst (extract_defined_ids ascii_only ?doc))))"
    by (simp add: check_2_issues filter_dangling_duplicates filter_dangling_danglings)
  also have "\<dots> = min (card (snd (extract_defined_ids ascii_only ?doc)
                              - fst (extract_defined_ids ascii_only ?doc))) 10"
    using fin by simp
  also have "\<dots> = 10"
    unfolding e using c by simp
  finally show ?thesis
    using e c by simp
qed

text \<open>
  C3 on the code: \<open>DEC-001\<close> is defined after a bullet on two lines, both occurrences
  are definitions for \<open>extract_defined_ids\<close>, and check 2 passes without any issue.
\<close>

theorem check_2_misses_bulleted_duplicate:
  "is_definition ascii_only (strip (ustr ''- DEC-001 first'')) (ustr ''DEC-001'')
   \<and> is_definition ascii_only (strip (ustr ''- DEC-001 second'')) (ustr ''DEC-001'')
   \<and> split_nl (ustr ''- DEC-001 first\<newline>- DEC-001 second'')
       = [ustr ''- DEC-001 first'', ustr ''- DEC-001 second'']
   \<and> passed (check_2_id_integrity ascii_only (ustr ''- DEC-001 first\<newline>- DEC-001 second''))
   \<and> issues (check_2_id_integrity ascii_only (ustr ''- DEC-001 first\<newline>- DEC-001 second'')) = []"
  by (simp add: ev)

section \<open>Properties of the section slicer\<close>

lemmas ev_section =
  is_hash_def is_dot_def title_after_def heading_after_def heading_match_def
  extract_section_def matching_heading_def heading_depth_def closes_section_def

lemma section_loop_in_section:
  "section_loop pat ls True d acc = acc @ map strip (takeWhile (\<lambda>l. \<not> closes_section d l) ls)"
proof (induction ls arbitrary: acc)
  case Nil
  then show ?case by simp
next
  case (Cons l ls)
  show ?case
  proof (cases "heading_match (strip l)")
    case None
    then show ?thesis
      using Cons.IH by (simp add: closes_section_def heading_depth_def)
  next
    case (Some lt)
    then show ?thesis
      using Cons.IH by (cases lt) (simp add: closes_section_def heading_depth_def)
  qed
qed

lemma section_loop_no_match:
  "\<forall>l \<in> set ls. \<not> matching_heading pat l \<Longrightarrow> section_loop pat ls False d acc = acc"
proof (induction ls)
  case Nil
  then show ?case by simp
next
  case (Cons l ls)
  then show ?case
    by (cases "heading_match (strip l)") (auto simp: matching_heading_def)
qed

lemma section_loop_first_match:
  assumes "\<forall>l \<in> set pre. \<not> matching_heading pat l"
    and "heading_match (strip h) = Some (level, title)" and "pat title"
  shows "section_loop pat (pre @ h # post) False d acc
           = acc @ map strip (h # takeWhile (\<lambda>l. \<not> closes_section level l) post)"
  using assms(1)
proof (induction pre)
  case Nil
  then show ?case
    using assms(2,3) by (simp add: section_loop_in_section)
next
  case (Cons l pre)
  then show ?case
    by (cases "heading_match (strip l)") (auto simp: matching_heading_def)
qed

lemma first_match_split:
  "\<exists>l \<in> set ls. P l \<Longrightarrow> \<exists>pre h post. ls = pre @ h # post \<and> (\<forall>l \<in> set pre. \<not> P l) \<and> P h"
  by (metis split_list_first_prop)

text \<open>
  C6. The slicer returns \<open>None\<close> exactly when no line of the document is a heading whose
  title matches the pattern. Otherwise, with \<open>h\<close> the first such heading and \<open>level\<close>
  its depth, it returns \<open>h\<close> and all the lines after it, deeper headings included, up to
  and without the first later heading of depth at most \<open>level\<close>, or up to the end of
  the document; the lines are returned trimmed and joined by newlines.
\<close>

theorem extract_section_spec:
  "(extract_section pat rfc = None)
     = (\<not> (\<exists>l \<in> set (split_nl rfc). matching_heading pat l))
   \<and> (\<forall>pre h post level title.
        split_nl rfc = pre @ h # post
        \<and> (\<forall>l \<in> set pre. \<not> matching_heading pat l)
        \<and> heading_match (strip h) = Some (level, title) \<and> pat title
        \<longrightarrow> extract_section pat rfc
              = Some (join_nl (map strip (h # takeWhile (\<lambda>l. \<not> closes_section level l) post))))"
proof (intro conjI allI impI)
  show "(extract_section pat rfc = None) = (\<not> (\<exists>l \<in> set (split_nl rfc). matching_heading pat l))"
  proof (cases "\<exists>l \<in> set (split_nl rfc). matching_heading pat l")
    case False
    then have "section_loop pat (split_nl rfc) False 0 [] = []"
      using section_loop_no_match [of "split_nl rfc" pat 0 "[]"] by simp
    with False show ?thesis
      by (simp add: extract_section_def)
  next
    case True
    then obtain pre h post where sp: "split_nl rfc = pre @ h # post"
      and pre: "\<forall>l \<in> set pre. \<not> matching_heading pat l" and h: "matching_heading pat h"
      using first_match_split [of "split_nl rfc" "matching_heading pat"] by blast
    from h obtain level title where hm: "heading_match (strip h) = Some (level, title)"
      and pt: "pat title"
      by (auto simp: matching_heading_def split: option.splits)
    have "section_loop pat (split_nl rfc) False 0 [] \<noteq> []"
      using section_loop_first_match [OF pre hm pt, of post 0 "[]"] sp by simp
    with True show ?thesis
      by (simp add: extract_section_def Let_def)
  qed
next
  fix pre h post level title
  assume a: "split_nl rfc = pre @ h # post
        \<and> (\<forall>l \<in> set pre. \<not> matching_heading pat l)
        \<and> heading_match (strip h) = Some (level, title) \<and> pat title"
  then have "section_loop pat (split_nl rfc) False 0 []
      = map strip (h # takeWhile (\<lambda>l. \<not> closes_section level l) post)"
    using section_loop_first_match [of pre pat h level title post 0 "[]"] by simp
  then show "extract_section pat rfc
      = Some (join_nl (map strip (h # takeWhile (\<lambda>l. \<not> closes_section level l) post)))"
    by (simp add: extract_section_def Let_def)
qed

theorem extract_section_spec_witness:
  "extract_section (\<lambda>t. t = ustr ''Scope'')
      (ustr ''# A\<newline>## Scope\<newline>  text\<newline>### Sub\<newline>more\<newline>## Next\<newline>z'')
     = Some (ustr ''## Scope\<newline>text\<newline>### Sub\<newline>more'')
   \<and> extract_section (\<lambda>t. t = ustr ''Scope'') (ustr ''# A\<newline>text'') = None"
proof (rule conjI)
  let ?pat = "\<lambda>t. t = ustr ''Scope''"
  let ?doc = "ustr ''# A\<newline>## Scope\<newline>  text\<newline>### Sub\<newline>more\<newline>## Next\<newline>z''"
  let ?post = "[ustr ''  text'', ustr ''### Sub'', ustr ''more'', ustr ''## Next'', ustr ''z'']"
  have sp: "split_nl ?doc = [ustr ''# A''] @ ustr ''## Scope'' # ?post"
    by (simp add: ustr_def)
  have pre: "\<forall>l \<in> set [ustr ''# A'']. \<not> matching_heading ?pat l"
    by (simp add: ev ev_section)
  have hm: "heading_match (strip (ustr ''## Scope'')) = Some (2, ustr ''Scope'')"
    by (simp add: ev ev_section)
  have "extract_section ?pat ?doc
      = Some (join_nl (map strip (ustr ''## Scope'' # takeWhile (\<lambda>l. \<not> closes_section 2 l) ?post)))"
    using extract_section_spec [of ?pat ?doc] sp pre hm by blast
  moreover have "join_nl (map strip (ustr ''## Scope'' # takeWhile (\<lambda>l. \<not> closes_section 2 l) ?post))
      = ustr ''## Scope\<newline>text\<newline>### Sub\<newline>more''"
    by (simp add: ev ev_section)
  ultimately show "extract_section ?pat ?doc = Some (ustr ''## Scope\<newline>text\<newline>### Sub\<newline>more'')"
    by simp
  have none: "\<not> (\<exists>l \<in> set (split_nl (ustr ''# A\<newline>text'')). matching_heading ?pat l)"
    by (simp add: ev ev_section)
  show "extract_section ?pat (ustr ''# A\<newline>text'') = None"
    using extract_section_spec [of ?pat "ustr ''# A\<newline>text''"] none by blast
qed

section \<open>Properties of check 5\<close>


lemma str_of_nat_digits: "\<forall>c \<in> set (str_of_nat n). 48 \<le> c \<and> c \<le> 57"
proof (induction n rule: str_of_nat.induct)
  case (1 n)
  show ?case
  proof (cases "n < 10")
    case True
    then show ?thesis by (subst str_of_nat.simps) simp
  next
    case False
    have "n mod 10 < 10" by simp
    then have "48 + n mod 10 \<le> 57" by linarith
    with False 1 show ?thesis by (subst str_of_nat.simps) auto
  qed
qed


















section \<open>Properties of check 7\<close>

lemma missing_evd_msg_inj: "(missing_evd_msg a = missing_evd_msg b) = (a = b)"
  by (simp add: missing_evd_msg_def)

lemma reported_missing_fail_other:
  "(\<And>e. m \<noteq> missing_evd_msg e) \<Longrightarrow> reported_missing (fail r m) = reported_missing r"
  by (auto simp: reported_missing_def fail_def)

lemma reported_missing_fail_missing:
  "reported_missing (fail_missing e r) = insert e (reported_missing r)"
  by (auto simp: reported_missing_def fail_missing_def fail_def missing_evd_msg_inj)

lemma truncated_msg_other: "truncated_msg L x \<noteq> missing_evd_msg e"
  by (simp add: truncated_msg_def missing_evd_msg_def ustr_def)

lemma hard_rule_msg_other: "hard_rule_msg h \<noteq> missing_evd_msg e"
  by (simp add: hard_rule_msg_def missing_evd_msg_def ustr_def)

lemma str_of_nat_hd: "\<exists>c cs. str_of_nat n = c # cs \<and> c \<le> 57"
proof -
  have "str_of_nat n \<noteq> []"
    by (subst str_of_nat.simps) simp
  then obtain c cs where "str_of_nat n = c # cs"
    by (cases "str_of_nat n") auto
  then show ?thesis
    using str_of_nat_digits [of n] by auto
qed

lemma implicit_msg_other: "implicit_msg a b \<noteq> missing_evd_msg e"
proof -
  obtain c cs where "str_of_nat a = c # cs" and "c \<le> 57"
    using str_of_nat_hd by blast
  then show ?thesis
    by (auto simp: implicit_msg_def missing_evd_msg_def ustr_def)
qed

lemma truncated_link_missing:
  "reported_missing (truncated_link L rfc x link r) = reported_missing r"
  by (simp add: truncated_link_def reported_missing_fail_other truncated_msg_other)

lemma fold_truncated_link_missing:
  "reported_missing (fold (truncated_link L rfc x) ls r) = reported_missing r"
  by (induction ls arbitrary: r) (simp_all add: truncated_link_missing)

lemma truncated_check_missing:
  "reported_missing (truncated_check L rfc item x r) = reported_missing r"
  by (simp add: truncated_check_def fold_truncated_link_missing)

lemma evidence_item_dict: "evidence_item item \<Longrightarrow> \<exists>kvs. item = JObj kvs"
  by (cases item) (simp_all add: evidence_item_def links_ok_def)

lemma evidence_loop_items:
  "list_all evidence_item its \<Longrightarrow>
   \<exists>r'. evidence_loop L rfc its S r = Inr (S \<union> evd_id_of ` set its, r')
      \<and> reported_missing r' = reported_missing r"
proof (induction its arbitrary: S r)
  case Nil
  then show ?case by simp
next
  case (Cons it its)
  obtain kvs where it: "it = JObj kvs"
    using Cons.prems evidence_item_dict by auto
  have h: "hashable (evd_id_of it)"
    using Cons.prems by (simp add: evidence_item_def)
  have g: "dict_get it (ustr ''evd_id'') (JStr []) = Inr (evd_id_of it)"
    using it by (simp add: evd_id_of_def)
  let ?r1 = "truncated_check L rfc it (evd_id_of it) r"
  have step: "evidence_loop L rfc (it # its) S r
      = evidence_loop L rfc its (insert (evd_id_of it) S) ?r1"
    using g h by simp
  obtain r' where r': "evidence_loop L rfc its (insert (evd_id_of it) S) ?r1
        = Inr (insert (evd_id_of it) S \<union> evd_id_of ` set its, r')"
      and m: "reported_missing r' = reported_missing ?r1"
    using Cons.IH [of "insert (evd_id_of it) S" ?r1] Cons.prems by auto
  have "evidence_loop L rfc (it # its) S r = Inr (S \<union> evd_id_of ` set (it # its), r')"
    using step r' by simp
  moreover have "reported_missing r' = reported_missing r"
    using m by (simp add: truncated_check_missing)
  ultimately show ?case by blast
qed

lemma fold_fail_missing:
  "reported_missing (fold fail_missing es r) = reported_missing r \<union> set es"
  by (induction es arbitrary: r) (auto simp: reported_missing_fail_missing)

lemma sorted_list_of_empty: "M = {} \<Longrightarrow> sorted_list_of_set M = []"
  by simp

lemma report_missing_spec:
  "truthy items \<Longrightarrow>
   reported_missing (report_missing U rfc items ids r)
     = reported_missing r
       \<union> set (take 5 (sorted_list_of_set {x \<in> rfc_evd_refs U rfc. JStr x \<notin> ids}))"
proof -
  assume t: "truthy items"
  let ?M = "{x \<in> rfc_evd_refs U rfc. JStr x \<notin> ids}"
  show ?thesis
  proof (cases "?M = {}")
    case True
    have e: "sorted_list_of_set ?M = []"
      using True by (rule sorted_list_of_empty)
    have "report_missing U rfc items ids r = r"
      using True by (simp add: report_missing_def)
    then show ?thesis
      unfolding e by simp
  next
    case False
    then show ?thesis
      using t by (simp add: report_missing_def Let_def fold_fail_missing)
  qed
qed

lemma has_evd_linked_returns:
  "list_all evidence_item its \<Longrightarrow> \<exists>b. has_evd_linked L h its = Inr b"
proof (induction its)
  case Nil
  show ?case by (rule exI [of _ False]) simp
next
  case (Cons it its)
  obtain b where b: "has_evd_linked L h its = Inr b"
    using Cons by auto
  have ok: "links_ok it"
    using Cons.prems by (simp add: evidence_item_def)
  then obtain links where g: "dict_get it (ustr ''links_to'') (JArr []) = Inr links"
    by (cases "dict_get it (ustr ''links_to'') (JArr [])") (simp_all add: links_ok_def)
  have "\<exists>ls. links_iter links = Inr ls"
    using ok g by (cases links) (simp_all add: links_ok_def links_iter_def)
  then obtain ls where "links_iter links = Inr ls"
    by blast
  then show ?case
    using b g by auto
qed

lemma hr_loop_returns:
  "list_all evidence_item its \<Longrightarrow>
   \<exists>r'. hr_loop U L lines its defs r = Inr r' \<and> reported_missing r' = reported_missing r"
proof (induction defs arbitrary: r)
  case Nil
  then show ?case by simp
next
  case (Cons d defs)
  obtain b where b: "has_evd_linked L (fst (snd d)) its = Inr b"
    using has_evd_linked_returns [OF Cons.prems] by blast
  let ?r1 = "if \<not> evd_search U (window_text lines (fst d) 10) \<and> \<not> b
             then fail r (hard_rule_msg (fst (snd d))) else r"
  have m1: "reported_missing ?r1 = reported_missing r"
    by (simp add: reported_missing_fail_other hard_rule_msg_other)
  obtain r' where "hr_loop U L lines its defs ?r1 = Inr r'"
    and "reported_missing r' = reported_missing ?r1"
    using Cons.IH [OF Cons.prems, of ?r1] by blast
  then have "hr_loop U L lines its (d # defs) r = Inr r' \<and> reported_missing r' = reported_missing r"
    using b m1 by simp
  then show ?case by blast
qed

lemma implicit_scan_missing:
  "reported_missing (implicit_scan U L lines defs r) = reported_missing r"
  by (simp add: implicit_scan_def Let_def reported_missing_fail_other implicit_msg_other)

lemma check_7_evidence_store:
  assumes "map_of ev (ustr ''items'') = Some (JArr its)" and "its \<noteq> []"
    and "list_all evidence_item its"
  shows "\<exists>r. check_7_evidence U L rfc (JObj ev) = Inr r
     \<and> reported_missing r = set (take 5 (sorted_list_of_set
            {x \<in> rfc_evd_refs U rfc. \<forall>it \<in> set its. evd_id_of it \<noteq> JStr x}))"
proof -
  let ?r0 = "new_result (ustr ''7. Evidence cross-check'') (ustr ''hard'')"
  let ?lines = "split_nl rfc"
  have "\<And>x. (JStr x \<notin> evd_id_of ` set its) = (\<forall>it \<in> set its. evd_id_of it \<noteq> JStr x)"
    by (metis image_iff)
  then have M: "{x \<in> rfc_evd_refs U rfc. JStr x \<notin> evd_id_of ` set its}
      = {x \<in> rfc_evd_refs U rfc. \<forall>it \<in> set its. evd_id_of it \<noteq> JStr x}"
    by simp
  obtain r1 where r1: "evidence_loop L rfc its {} ?r0 = Inr (evd_id_of ` set its, r1)"
    and m1: "reported_missing r1 = reported_missing ?r0"
    using evidence_loop_items [OF assms(3), of L rfc "{}" ?r0] by auto
  have m0: "reported_missing ?r0 = {}"
    by (simp add: reported_missing_def new_result_def)
  let ?r2 = "report_missing U rfc (JArr its) (evd_id_of ` set its) r1"
  have m2: "reported_missing ?r2 = set (take 5 (sorted_list_of_set
            {x \<in> rfc_evd_refs U rfc. \<forall>it \<in> set its. evd_id_of it \<noteq> JStr x}))"
    using report_missing_spec [of "JArr its" U rfc "evd_id_of ` set its" r1] assms(2) m1 m0
    unfolding M by simp
  obtain r3 where r3: "hr_loop U L ?lines its (hr_defs_from U 0 ?lines) ?r2 = Inr r3"
    and m3: "reported_missing r3 = reported_missing ?r2"
    using hr_loop_returns [OF assms(3)] by blast
  have "check_7_evidence U L rfc (JObj ev)
      = Inr (implicit_scan U L ?lines (hr_defs_from U 0 ?lines) r3)"
    using assms(1) r1 r3 by (simp add: check_7_evidence_def)
  moreover have "reported_missing (implicit_scan U L ?lines (hr_defs_from U 0 ?lines) r3)
      = set (take 5 (sorted_list_of_set
            {x \<in> rfc_evd_refs U rfc. \<forall>it \<in> set its. evd_id_of it \<noteq> JStr x}))"
    using m2 m3 by (simp add: implicit_scan_missing)
  ultimately show ?thesis by blast
qed

lemma report_missing_list:
  "report_missing U rfc items ids r =
     (if filter (\<lambda>x. JStr x \<notin> ids) (map (group0 rfc) (finditer (EVD_REF_at U) rfc)) \<noteq> []
         \<and> truthy items
      then fold fail_missing
             (take 5 (sort (remdups (filter (\<lambda>x. JStr x \<notin> ids)
                                       (map (group0 rfc) (finditer (EVD_REF_at U) rfc)))))) r
      else r)"
proof -
  let ?refs = "map (group0 rfc) (finditer (EVD_REF_at U) rfc)"
  let ?ms = "filter (\<lambda>x. JStr x \<notin> ids) ?refs"
  have m: "{x \<in> rfc_evd_refs U rfc. JStr x \<notin> ids} = set ?ms"
    by (auto simp: rfc_evd_refs_def)
  have e: "(set ?ms \<noteq> {}) = (?ms \<noteq> [])"
    by (rule arg_cong [where f = Not]) (rule set_empty)
  show ?thesis
    unfolding report_missing_def Let_def m e sorted_list_of_set_sort_remdups ..
qed

lemmas ev_check7 =
  ascii_lower_def plain_lib_def py_str_def dict_value_def links_list_def hard_link_def
  no_unresolved_def truncated_msg_def truncated_link_def truncated_check_def EVD_REF_at_def
  group0_def rfc_evd_refs_def missing_evd_msg_def fail_missing_def report_missing_list
  is_hr_def hr_entry_def domain_entry_def hr_defs_line_def window_text_def evd_search_def
  links_iter_def mentions_def hard_rule_msg_def skipped_line_def hr_near_def
  implicit_step_def implicit_msg_def implicit_scan_def check_7_evidence_def evd_id_of_def
  links_ok_def evidence_item_def

text \<open>
  Outside that shape the check can raise: with \<open>links_to\<close> null and a hard rule in
  the text, the loop that looks for a link iterates \<open>None\<close>.
\<close>

lemma check_7_evidence_raises_on_null_links:
  "check_7_evidence ascii_only plain_lib (ustr ''HR-001 see EVD-002'')
      (JObj [(ustr ''items'', JArr [JObj [(ustr ''evd_id'', JStr (ustr ''EVD-001'')),
                                          (ustr ''links_to'', JNull)]])])
     = Inl TypeError"
  by (simp add: ev ev_check7)

text \<open>
  C5, amended. Let the store's item list be non-empty, each item a dictionary whose
  \<open>evd_id\<close> can be hashed and whose \<open>links_to\<close>, when present, is a string, a list or a
  dictionary. Then check 7 returns, and it reports a dangling-evidence failure for an
  \<open>EVD-NNN\<close> token of the text exactly when that id is not the \<open>evd_id\<close> of any item in
  the store and is among the first five such ids in sorted order; when every referenced
  id is the \<open>evd_id\<close> of some item, no such issue is raised. The store has the shape
  \<open>{schema_version, items: [{evd_id, truncated?, links_to?}]}\<close>.
\<close>

theorem check_7_dangling_evidence:
  assumes "map_of ev (ustr ''items'') = Some (JArr its)" and "its \<noteq> []"
    and "list_all evidence_item its"
  shows "\<exists>r. check_7_evidence U L rfc (JObj ev) = Inr r
     \<and> (\<forall>e. (missing_evd_msg e \<in> set (issues r))
            = (e \<in> set (take 5 (sorted_list_of_set
                 {x \<in> rfc_evd_refs U rfc. \<forall>it \<in> set its. evd_id_of it \<noteq> JStr x}))))
     \<and> ((\<forall>x \<in> rfc_evd_refs U rfc. \<exists>it \<in> set its. evd_id_of it = JStr x)
          \<longrightarrow> (\<forall>e. missing_evd_msg e \<notin> set (issues r)))"
proof -
  let ?M = "{x \<in> rfc_evd_refs U rfc. \<forall>it \<in> set its. evd_id_of it \<noteq> JStr x}"
  obtain r where r: "check_7_evidence U L rfc (JObj ev) = Inr r"
    and m: "reported_missing r = set (take 5 (sorted_list_of_set ?M))"
    using check_7_evidence_store [OF assms] by blast
  have a: "\<forall>e. (missing_evd_msg e \<in> set (issues r)) = (e \<in> set (take 5 (sorted_list_of_set ?M)))"
    using m by (auto simp: reported_missing_def)
  have b: "(\<forall>x \<in> rfc_evd_refs U rfc. \<exists>it \<in> set its. evd_id_of it = JStr x)
          \<longrightarrow> (\<forall>e. missing_evd_msg e \<notin> set (issues r))"
  proof
    assume "\<forall>x \<in> rfc_evd_refs U rfc. \<exists>it \<in> set its. evd_id_of it = JStr x"
    then have "?M = {}" by blast
    then have "sorted_list_of_set ?M = []" by (rule sorted_list_of_empty)
    then show "\<forall>e. missing_evd_msg e \<notin> set (issues r)"
      using a by simp
  qed
  from r a b show ?thesis by blast
qed

theorem check_7_dangling_evidence_witness:
  "map_of [(ustr ''schema_version'', JStr (ustr ''v1'')),
           (ustr ''items'', JArr [JObj [(ustr ''evd_id'', JStr (ustr ''EVD-001'')),
                                        (ustr ''links_to'', JArr [JStr (ustr ''HR-001'')])]])]
          (ustr ''items'')
     = Some (JArr [JObj [(ustr ''evd_id'', JStr (ustr ''EVD-001'')),
                         (ustr ''links_to'', JArr [JStr (ustr ''HR-001'')])]])
   \<and> list_all evidence_item [JObj [(ustr ''evd_id'', JStr (ustr ''EVD-001'')),
                                   (ustr ''links_to'', JArr [JStr (ustr ''HR-001'')])]]
   \<and> check_7_evidence ascii_only plain_lib (ustr ''HR-001 see EVD-001 and EVD-002'')
        (JObj [(ustr ''schema_version'', JStr (ustr ''v1'')),
               (ustr ''items'', JArr [JObj [(ustr ''evd_id'', JStr (ustr ''EVD-001'')),
                                            (ustr ''links_to'', JArr [JStr (ustr ''HR-001'')])]])])
     = Inr \<lparr>name = ustr ''7. Evidence cross-check'', kind = ustr ''hard'', passed = False,
            issues = [missing_evd_msg (ustr ''EVD-002'')], warnings = []\<rparr>
   \<and> (\<exists>r. check_7_evidence ascii_only plain_lib (ustr ''HR-001 see EVD-001 and EVD-002'')
        (JObj [(ustr ''schema_version'', JStr (ustr ''v1'')),
               (ustr ''items'', JArr [JObj [(ustr ''evd_id'', JStr (ustr ''EVD-001'')),
                                            (ustr ''links_to'', JArr [JStr (ustr ''HR-001'')])]])])
          = Inr r
        \<and> missing_evd_msg (ustr ''EVD-002'') \<in> set (issues r)
        \<and> missing_evd_msg (ustr ''EVD-001'') \<notin> set (issues r))"
proof -
  let ?its = "[JObj [(ustr ''evd_id'', JStr (ustr ''EVD-001'')),
                     (ustr ''links_to'', JArr [JStr (ustr ''HR-001'')])]]"
  let ?ev = "[(ustr ''schema_version'', JStr (ustr ''v1'')), (ustr ''items'', JArr ?its)]"
  let ?rfc = "ustr ''HR-001 see EVD-001 and EVD-002''"
  have h1: "map_of ?ev (ustr ''items'') = Some (JArr ?its)"
    by (simp add: ustr_def)
  have h2: "?its \<noteq> []"
    by simp
  have h3: "list_all evidence_item ?its"
    by (simp add: ev_check7 ustr_def)
  have refs: "rfc_evd_refs ascii_only ?rfc = {ustr ''EVD-001'', ustr ''EVD-002''}"
    by (simp add: ev ev_check7)
  have miss: "{x \<in> rfc_evd_refs ascii_only ?rfc. \<forall>it \<in> set ?its. evd_id_of it \<noteq> JStr x}
      = {ustr ''EVD-002''}"
    unfolding refs by (auto simp: evd_id_of_def ustr_def)
  obtain r where r: "check_7_evidence ascii_only plain_lib ?rfc (JObj ?ev) = Inr r"
    and m: "\<forall>e. (missing_evd_msg e \<in> set (issues r))
            = (e \<in> set (take 5 (sorted_list_of_set
                 {x \<in> rfc_evd_refs ascii_only ?rfc. \<forall>it \<in> set ?its. evd_id_of it \<noteq> JStr x})))"
    using check_7_dangling_evidence [OF h1 h2 h3, of ascii_only plain_lib ?rfc] by blast
  have v: "check_7_evidence ascii_only plain_lib ?rfc (JObj ?ev)
     = Inr \<lparr>name = ustr ''7. Evidence cross-check'', kind = ustr ''hard'', passed = False,
            issues = [missing_evd_msg (ustr ''EVD-002'')], warnings = []\<rparr>"
    by (simp add: ev ev_check7)
  have "missing_evd_msg (ustr ''EVD-002'') \<in> set (issues r)"
    using m unfolding miss by simp
  moreover have "missing_evd_msg (ustr ''EVD-001'') \<notin> set (issues r)"
    using m unfolding miss by (simp add: ustr_def)
  ultimately show ?thesis
    using h1 h3 v r by blast
qed

text \<open>
  C5 as stated fails twice. A store of the stated shape, whose item carries its id
  under \<open>evidence_id\<close>, holds \<open>EVD-001\<close>, and check 7 still reports \<open>EVD-001\<close> as
  missing. And of six referenced ids that are in no item of the store, the sixth is not
  reported.
\<close>

theorem check_7_evidence_id_counterexample:
  "check_7_evidence ascii_only plain_lib (ustr ''see EVD-001'')
      (JObj [(ustr ''schema_version'', JStr (ustr ''v1'')),
             (ustr ''items'', JArr [JObj [(ustr ''evidence_id'', JStr (ustr ''EVD-001''))]])])
     = Inr \<lparr>name = ustr ''7. Evidence cross-check'', kind = ustr ''hard'', passed = False,
            issues = [missing_evd_msg (ustr ''EVD-001'')], warnings = []\<rparr>
   \<and> check_7_evidence ascii_only plain_lib
      (ustr ''EVD-001 EVD-002 EVD-003 EVD-004 EVD-005 EVD-006'')
      (JObj [(ustr ''schema_version'', JStr (ustr ''v1'')),
             (ustr ''items'', JArr [JObj [(ustr ''evd_id'', JStr (ustr ''EVD-900'')),
                                          (ustr ''evidence_id'', JStr (ustr ''EVD-900''))]])])
     = Inr \<lparr>name = ustr ''7. Evidence cross-check'', kind = ustr ''hard'', passed = False,
            issues = [missing_evd_msg (ustr ''EVD-001''), missing_evd_msg (ustr ''EVD-002''),
                      missing_evd_msg (ustr ''EVD-003''), missing_evd_msg (ustr ''EVD-004''),
                      missing_evd_msg (ustr ''EVD-005'')], warnings = []\<rparr>"
proof (rule conjI)
  show "check_7_evidence ascii_only plain_lib (ustr ''see EVD-001'')
      (JObj [(ustr ''schema_version'', JStr (ustr ''v1'')),
             (ustr ''items'', JArr [JObj [(ustr ''evidence_id'', JStr (ustr ''EVD-001''))]])])
     = Inr \<lparr>name = ustr ''7. Evidence cross-check'', kind = ustr ''hard'', passed = False,
            issues = [missing_evd_msg (ustr ''EVD-001'')], warnings = []\<rparr>"
    by (simp add: ev ev_check7)
  show "check_7_evidence ascii_only plain_lib
      (ustr ''EVD-001 EVD-002 EVD-003 EVD-004 EVD-005 EVD-006'')
      (JObj [(ustr ''schema_version'', JStr (ustr ''v1'')),
             (ustr ''items'', JArr [JObj [(ustr ''evd_id'', JStr (ustr ''EVD-900'')),
                                          (ustr ''evidence_id'', JStr (ustr ''EVD-900''))]])])
     = Inr \<lparr>name = ustr ''7. Evidence cross-check'', kind = ustr ''hard'', passed = False,
            issues = [missing_evd_msg (ustr ''EVD-001''), missing_evd_msg (ustr ''EVD-002''),
                      missing_evd_msg (ustr ''EVD-003''), missing_evd_msg (ustr ''EVD-004''),
                      missing_evd_msg (ustr ''EVD-005'')], warnings = []\<rparr>"
    by (simp add: ev ev_check7)
qed

section \<open>Properties of the configuration resolver\<close>

lemmas ev_config =
  DEFAULT_CONFIG_def module_state_def update_pair_def dict_update_def default_config_path_def
  caught_def load_config_def wf_state_def

lemma memo_addrs_lookup: "map_of memo a = Some y \<Longrightarrow> addrs y \<subseteq> memo_addrs memo"
  by (auto simp: memo_addrs_def dest: map_of_SomeD)

lemma memo_addrs_Cons: "memo_addrs ((a, y) # memo) = addrs y \<union> memo_addrs memo"
  by (simp add: memo_addrs_def)

lemma deepcopy_fresh:
  "deepcopy memo t n = (t', memo', n') \<Longrightarrow>
     n \<le> n' \<and> addrs t' \<subseteq> {n ..< n'} \<union> memo_addrs memo
     \<and> memo_addrs memo' \<subseteq> {n ..< n'} \<union> memo_addrs memo"
  "deepcopy_list memo xs n = (ys, memo', n') \<Longrightarrow>
     n \<le> n' \<and> (\<Union>y \<in> set ys. addrs y) \<subseteq> {n ..< n'} \<union> memo_addrs memo
     \<and> memo_addrs memo' \<subseteq> {n ..< n'} \<union> memo_addrs memo"
  "deepcopy_items memo kvs n = (kvs', memo', n') \<Longrightarrow>
     n \<le> n' \<and> value_addrs kvs' \<subseteq> {n ..< n'} \<union> memo_addrs memo
     \<and> memo_addrs memo' \<subseteq> {n ..< n'} \<union> memo_addrs memo"
proof (induction memo t n and memo xs n and memo kvs n
    arbitrary: t' memo' n' and ys memo' n' and kvs' memo' n'
    rule: deepcopy_deepcopy_list_deepcopy_items.induct)
  case (1 memo x n)
  then show ?case by auto
next
  case (2 memo a xs n)
  show ?case
  proof (cases "map_of memo a")
    case (Some y)
    then show ?thesis
      using "2.prems" memo_addrs_lookup [OF Some] by auto
  next
    case None
    obtain ys m1 n1 where c: "deepcopy_list memo xs (Suc n) = (ys, m1, n1)"
      by (cases "deepcopy_list memo xs (Suc n)") auto
    have ih: "Suc n \<le> n1 \<and> (\<Union>y \<in> set ys. addrs y) \<subseteq> {Suc n ..< n1} \<union> memo_addrs memo
        \<and> memo_addrs m1 \<subseteq> {Suc n ..< n1} \<union> memo_addrs memo"
      using "2.IH" [OF None c] .
    have r: "t' = PList n ys" "memo' = (a, PList n ys) # m1" "n' = n1"
      using "2.prems" None c by auto
    have s: "{Suc n ..< n1} \<subseteq> {n ..< n1}" "n \<in> {n ..< n1}"
      using ih by auto
    show ?thesis
      unfolding r memo_addrs_Cons using ih s by auto
  qed
next
  case (3 memo a kvs n)
  show ?case
  proof (cases "map_of memo a")
    case (Some y)
    then show ?thesis
      using "3.prems" memo_addrs_lookup [OF Some] by auto
  next
    case None
    obtain kvs1 m1 n1 where c: "deepcopy_items memo kvs (Suc n) = (kvs1, m1, n1)"
      by (cases "deepcopy_items memo kvs (Suc n)") auto
    have ih: "Suc n \<le> n1 \<and> value_addrs kvs1 \<subseteq> {Suc n ..< n1} \<union> memo_addrs memo
        \<and> memo_addrs m1 \<subseteq> {Suc n ..< n1} \<union> memo_addrs memo"
      using "3.IH" [OF None c] .
    have r: "t' = PDict n kvs1" "memo' = (a, PDict n kvs1) # m1" "n' = n1"
      using "3.prems" None c by auto
    have s: "{Suc n ..< n1} \<subseteq> {n ..< n1}" "n \<in> {n ..< n1}"
      using ih by auto
    have v: "addrs (PDict n kvs1) = insert n (value_addrs kvs1)"
      by (simp add: value_addrs_def)
    show ?thesis
      unfolding r memo_addrs_Cons v using ih s by auto
  qed
next
  case (4 memo n)
  then show ?case by auto
next
  case (5 memo x xs n)
  obtain y m1 n1 where c1: "deepcopy memo x n = (y, m1, n1)"
    by (cases "deepcopy memo x n") auto
  obtain ys2 m2 n2 where c2: "deepcopy_list m1 xs n1 = (ys2, m2, n2)"
    by (cases "deepcopy_list m1 xs n1") auto
  have ih1: "n \<le> n1 \<and> addrs y \<subseteq> {n ..< n1} \<union> memo_addrs memo
      \<and> memo_addrs m1 \<subseteq> {n ..< n1} \<union> memo_addrs memo"
    using "5.IH"(1) [OF c1] .
  have ih2: "n1 \<le> n2 \<and> (\<Union>y \<in> set ys2. addrs y) \<subseteq> {n1 ..< n2} \<union> memo_addrs m1
      \<and> memo_addrs m2 \<subseteq> {n1 ..< n2} \<union> memo_addrs m1"
    using "5.IH"(2) [OF c1 [symmetric] refl c2] .
  have r: "ys = y # ys2" "memo' = m2" "n' = n2"
    using "5.prems" c1 c2 by auto
  have s: "{n ..< n1} \<subseteq> {n ..< n2}" "{n1 ..< n2} \<subseteq> {n ..< n2}"
    using ih1 ih2 by auto
  have a: "addrs y \<subseteq> {n ..< n2} \<union> memo_addrs memo"
    using ih1 s by blast
  have b: "(\<Union>y \<in> set ys2. addrs y) \<subseteq> {n ..< n2} \<union> memo_addrs memo"
    using ih1 ih2 s by blast
  have c: "memo_addrs m2 \<subseteq> {n ..< n2} \<union> memo_addrs memo"
    using ih1 ih2 s by blast
  have "n \<le> n2"
    using ih1 ih2 by simp
  then show ?case
    unfolding r using a b c by simp
next
  case (6 memo n)
  then show ?case by (auto simp: value_addrs_def)
next
  case (7 memo k v kvs n)
  obtain v1 m1 n1 where c1: "deepcopy memo v n = (v1, m1, n1)"
    by (cases "deepcopy memo v n") auto
  obtain kvs2 m2 n2 where c2: "deepcopy_items m1 kvs n1 = (kvs2, m2, n2)"
    by (cases "deepcopy_items m1 kvs n1") auto
  have ih1: "n \<le> n1 \<and> addrs v1 \<subseteq> {n ..< n1} \<union> memo_addrs memo
      \<and> memo_addrs m1 \<subseteq> {n ..< n1} \<union> memo_addrs memo"
    using "7.IH"(1) [OF c1] .
  have ih2: "n1 \<le> n2 \<and> value_addrs kvs2 \<subseteq> {n1 ..< n2} \<union> memo_addrs m1
      \<and> memo_addrs m2 \<subseteq> {n1 ..< n2} \<union> memo_addrs m1"
    using "7.IH"(2) [OF c1 [symmetric] refl c2] .
  have r: "kvs' = (k, v1) # kvs2" "memo' = m2" "n' = n2"
    using "7.prems" c1 c2 by auto
  have s: "{n ..< n1} \<subseteq> {n ..< n2}" "{n1 ..< n2} \<subseteq> {n ..< n2}"
    using ih1 ih2 by auto
  have v: "value_addrs ((k, v1) # kvs2) = addrs v1 \<union> value_addrs kvs2"
    by (simp add: value_addrs_def)
  have a: "addrs v1 \<subseteq> {n ..< n2} \<union> memo_addrs memo"
    using ih1 s by blast
  have b: "value_addrs kvs2 \<subseteq> {n ..< n2} \<union> memo_addrs memo"
    using ih1 ih2 s by blast
  have c: "memo_addrs m2 \<subseteq> {n ..< n2} \<union> memo_addrs memo"
    using ih1 ih2 s by blast
  have "n \<le> n2"
    using ih1 ih2 by simp
  then show ?case
    unfolding r v using a b c by simp
qed

lemma json_objects_fresh:
  "json_objects j n = (v, n') \<Longrightarrow> n \<le> n' \<and> addrs v \<subseteq> {n ..< n'}"
  "json_list js n = (vs, n') \<Longrightarrow> n \<le> n' \<and> (\<Union>v \<in> set vs. addrs v) \<subseteq> {n ..< n'}"
  "json_items jkvs n = (kvs, n') \<Longrightarrow> n \<le> n' \<and> value_addrs kvs \<subseteq> {n ..< n'}"
proof (induction j n and js n and jkvs n arbitrary: v n' and vs n' and kvs n'
    rule: json_objects_json_list_json_items.induct)
  case (5 xs n)
  obtain ys n1 where c: "json_list xs (Suc n) = (ys, n1)"
    by (cases "json_list xs (Suc n)") auto
  have ih: "Suc n \<le> n1 \<and> (\<Union>v \<in> set ys. addrs v) \<subseteq> {Suc n ..< n1}"
    using "5.IH" [OF c] .
  have r: "v = PList n ys" "n' = n1"
    using "5.prems" c by auto
  have s: "{Suc n ..< n1} \<subseteq> {n ..< n1}" "n \<in> {n ..< n1}"
    using ih by auto
  have "(\<Union>v \<in> set ys. addrs v) \<subseteq> {n ..< n1}"
    using ih s by blast
  then show ?case
    unfolding r using ih s by simp
next
  case (6 kvs0 n)
  obtain kvs1 n1 where c: "json_items kvs0 (Suc n) = (kvs1, n1)"
    by (cases "json_items kvs0 (Suc n)") auto
  have ih: "Suc n \<le> n1 \<and> value_addrs kvs1 \<subseteq> {Suc n ..< n1}"
    using "6.IH" [OF c] .
  have r: "v = PDict n kvs1" "n' = n1"
    using "6.prems" c by auto
  have s: "{Suc n ..< n1} \<subseteq> {n ..< n1}" "n \<in> {n ..< n1}"
    using ih by auto
  have a: "addrs (PDict n kvs1) = insert n (value_addrs kvs1)"
    by (simp add: value_addrs_def)
  have "value_addrs kvs1 \<subseteq> {n ..< n1}"
    using ih s by blast
  then show ?case
    unfolding r a using ih s by simp
next
  case (8 x xs n)
  obtain y n1 where c1: "json_objects x n = (y, n1)"
    by (cases "json_objects x n") auto
  obtain ys n2 where c2: "json_list xs n1 = (ys, n2)"
    by (cases "json_list xs n1") auto
  have ih1: "n \<le> n1 \<and> addrs y \<subseteq> {n ..< n1}"
    using "8.IH"(1) [OF c1] .
  have ih2: "n1 \<le> n2 \<and> (\<Union>v \<in> set ys. addrs v) \<subseteq> {n1 ..< n2}"
    using "8.IH"(2) [OF c1 [symmetric] c2] .
  have r: "vs = y # ys" "n' = n2"
    using "8.prems" c1 c2 by auto
  have s: "{n ..< n1} \<subseteq> {n ..< n2}" "{n1 ..< n2} \<subseteq> {n ..< n2}"
    using ih1 ih2 by auto
  have a: "addrs y \<subseteq> {n ..< n2}"
    using ih1 s by blast
  have b: "(\<Union>v \<in> set ys. addrs v) \<subseteq> {n ..< n2}"
    using ih2 s by blast
  have "n \<le> n2"
    using ih1 ih2 by simp
  then show ?case
    unfolding r using a b by simp
next
  case (10 k j kvs0 n)
  obtain y n1 where c1: "json_objects j n = (y, n1)"
    by (cases "json_objects j n") auto
  obtain kvs2 n2 where c2: "json_items kvs0 n1 = (kvs2, n2)"
    by (cases "json_items kvs0 n1") auto
  have ih1: "n \<le> n1 \<and> addrs y \<subseteq> {n ..< n1}"
    using "10.IH"(1) [OF c1] .
  have ih2: "n1 \<le> n2 \<and> value_addrs kvs2 \<subseteq> {n1 ..< n2}"
    using "10.IH"(2) [OF c1 [symmetric] c2] .
  have r: "kvs = (AStr k, y) # kvs2" "n' = n2"
    using "10.prems" c1 c2 by auto
  have s: "{n ..< n1} \<subseteq> {n ..< n2}" "{n1 ..< n2} \<subseteq> {n ..< n2}"
    using ih1 ih2 by auto
  have v: "value_addrs ((AStr k, y) # kvs2) = addrs y \<union> value_addrs kvs2"
    by (simp add: value_addrs_def)
  have a: "addrs y \<subseteq> {n ..< n2}"
    using ih1 s by blast
  have b: "value_addrs kvs2 \<subseteq> {n ..< n2}"
    using ih2 s by blast
  have "n \<le> n2"
    using ih1 ih2 by simp
  then show ?case
    unfolding r v using a b by simp
qed (auto simp: value_addrs_def)

lemma value_addrs_dict_set: "value_addrs (dict_set kvs k v) \<subseteq> value_addrs kvs \<union> addrs v"
  by (induction kvs k v rule: dict_set.induct) (auto simp: value_addrs_def)

lemma value_addrs_fold_dict_set:
  "value_addrs (fold (\<lambda>(k, v) d. dict_set d k v) kvs2 kvs) \<subseteq> value_addrs kvs \<union> value_addrs kvs2"
proof (induction kvs2 arbitrary: kvs)
  case Nil
  then show ?case by (simp add: value_addrs_def)
next
  case (Cons kv kvs2)
  obtain k v where kv: "kv = (k, v)"
    by (cases kv) auto
  have "value_addrs (fold (\<lambda>(k, v) d. dict_set d k v) kvs2 (dict_set kvs k v))
      \<subseteq> value_addrs (dict_set kvs k v) \<union> value_addrs kvs2"
    using Cons.IH .
  moreover have "value_addrs ((k, v) # kvs2) = addrs v \<union> value_addrs kvs2"
    by (simp add: value_addrs_def)
  ultimately show ?case
    unfolding kv using value_addrs_dict_set [of kvs k v] by auto
qed

lemma update_pair_addrs: "update_pair x = Inr (k, v) \<Longrightarrow> addrs v \<subseteq> addrs x"
  by (auto simp: update_pair_def split: pyval.splits list.splits atom.splits prod.splits)

lemma update_pairs_addrs:
  "update_pairs kvs xs = Inr kvs' \<Longrightarrow> value_addrs kvs' \<subseteq> value_addrs kvs \<union> (\<Union>x \<in> set xs. addrs x)"
proof (induction xs arbitrary: kvs)
  case Nil
  then show ?case by simp
next
  case (Cons x xs)
  then obtain k v where p: "update_pair x = Inr (k, v)"
    and r: "update_pairs (dict_set kvs k v) xs = Inr kvs'"
    by (auto split: sum.splits)
  have "value_addrs kvs' \<subseteq> value_addrs (dict_set kvs k v) \<union> (\<Union>x \<in> set xs. addrs x)"
    using Cons.IH [OF r] .
  then show ?case
    using value_addrs_dict_set [of kvs k v] update_pair_addrs [OF p] by auto
qed

lemma dict_update_addrs:
  "dict_update kvs other = Inr kvs' \<Longrightarrow> value_addrs kvs' \<subseteq> value_addrs kvs \<union> addrs other"
proof (cases other)
  case (Atom x)
  assume d: "dict_update kvs other = Inr kvs'"
  show ?thesis
  proof (cases x)
    case (AStr s)
    then have "update_pairs kvs (map (\<lambda>c. Atom (AStr [c])) s) = Inr kvs'"
      using d Atom by (simp add: dict_update_def)
    from update_pairs_addrs [OF this] show ?thesis
      by auto
  qed (use d Atom in \<open>simp_all add: dict_update_def\<close>)
next
  case (PList b xs)
  assume "dict_update kvs other = Inr kvs'"
  then have "update_pairs kvs xs = Inr kvs'"
    using PList by (simp add: dict_update_def)
  from update_pairs_addrs [OF this] show ?thesis
    using PList by auto
next
  case (PDict b kvs2)
  assume "dict_update kvs other = Inr kvs'"
  then have "kvs' = fold (\<lambda>(k, v) d. dict_set d k v) kvs2 kvs"
    using PDict by (simp add: dict_update_def)
  then show ?thesis
    using value_addrs_fold_dict_set [of kvs2 kvs] PDict by (auto simp: value_addrs_def)
qed

lemma poke_unreached: "a \<notin> addrs t \<Longrightarrow> poke a new t = t"
proof (induction a new t rule: poke.induct)
  case (1 a new x)
  then show ?case by simp
next
  case (2 a new b xs)
  then have "a \<noteq> b" and "\<And>x. x \<in> set xs \<Longrightarrow> poke a new x = x"
    by auto
  then show ?case
    by (simp add: map_idI)
next
  case (3 a new b kvs)
  then have ne: "a \<noteq> b" and ih: "\<And>k v. (k, v) \<in> set kvs \<Longrightarrow> poke a new v = v"
    by auto
  have "map (\<lambda>(k, v). (k, poke a new v)) kvs = kvs"
    by (rule map_idI) (auto simp: ih)
  with ne show ?case
    by simp
qed

lemma load_config_frame:
  assumes wf: "wf_state st" and run: "load_config E p st = (res, st')"
  shows "default_config st' = default_config st \<and> next_addr st \<le> next_addr st'
     \<and> wf_state st'
     \<and> (\<forall>c. res = Inr c \<longrightarrow> addrs c \<subseteq> {next_addr st ..< next_addr st'})"
proof -
  let ?n0 = "next_addr st"
  obtain cfg memo n where dc: "deepcopy [] (default_config st) ?n0 = (cfg, memo, n)"
    by (cases "deepcopy [] (default_config st) ?n0") auto
  have f1: "?n0 \<le> n" and f2: "addrs cfg \<subseteq> {?n0 ..< n}"
    using deepcopy_fresh(1) [OF dc] by (simp_all add: memo_addrs_def)
  let ?path = "case p of None \<Rightarrow> default_config_path E | Some q \<Rightarrow> q"
  have d0: "addrs (default_config st) \<subseteq> {..< ?n0}"
    using wf by (simp add: wf_state_def)
  show ?thesis
  proof (cases "read_json E ?path")
    case (Raises e)
    then have r: "res = (if caught e then Inr cfg else Inl e)" "st' = st\<lparr>next_addr := n\<rparr>"
      using run dc by (simp_all add: load_config_def Let_def)
    have "wf_state st'"
      using d0 f1 unfolding r wf_state_def by auto
    then show ?thesis
      using f1 f2 unfolding r by (auto split: if_splits)
  next
    case (Parsed j)
    obtain ov n' where jo: "json_objects j n = (ov, n')"
      by (cases "json_objects j n") auto
    have g1: "n \<le> n'" and g2: "addrs ov \<subseteq> {n ..< n'}"
      using json_objects_fresh(1) [OF jo] by simp_all
    have s: "{?n0 ..< n} \<subseteq> {?n0 ..< n'}" "{n ..< n'} \<subseteq> {?n0 ..< n'}"
      using f1 g1 by auto
    have f3: "addrs cfg \<subseteq> {?n0 ..< n'}"
      using f2 s by blast
    have d1: "addrs (default_config st) \<subseteq> {..< n'}"
      using d0 f1 g1 by auto
    show ?thesis
    proof (cases cfg)
      case (Atom x)
      then have r: "res = Inl AttributeError" "st' = st\<lparr>next_addr := n'\<rparr>"
        using run dc Parsed jo by (simp_all add: load_config_def Let_def)
      show ?thesis
        unfolding r wf_state_def using d1 f1 g1 by simp
    next
      case (PList c xs)
      then have r: "res = Inl AttributeError" "st' = st\<lparr>next_addr := n'\<rparr>"
        using run dc Parsed jo by (simp_all add: load_config_def Let_def)
      show ?thesis
        unfolding r wf_state_def using d1 f1 g1 by simp
    next
      case (PDict c kvs)
      have c0: "c \<in> {?n0 ..< n}" and kv: "value_addrs kvs \<subseteq> {?n0 ..< n}"
        using f2 PDict by (auto simp: value_addrs_def)
      show ?thesis
      proof (cases "dict_update kvs ov")
        case (Inl e)
        then have r: "res = (if caught e then Inr cfg else Inl e)" "st' = st\<lparr>next_addr := n'\<rparr>"
          using run dc Parsed jo PDict by (auto simp: load_config_def Let_def)
        have "wf_state st'"
          using d1 unfolding r wf_state_def by simp
        then show ?thesis
          using f1 g1 f3 unfolding r by (auto split: if_splits)
      next
        case (Inr kvs')
        have "c \<notin> addrs (default_config st)"
          using c0 d0 by auto
        then have pk: "poke c (PDict c kvs') (default_config st) = default_config st"
          by (rule poke_unreached)
        have r: "res = Inr (PDict c kvs')" "st' = st\<lparr>next_addr := n'\<rparr>"
          using run dc Parsed jo PDict Inr pk by (simp_all add: load_config_def Let_def)
        have "value_addrs kvs' \<subseteq> value_addrs kvs \<union> addrs ov"
          using Inr by (rule dict_update_addrs)
        then have "value_addrs kvs' \<subseteq> {?n0 ..< n'}"
          using kv g2 s by blast
        moreover have "c \<in> {?n0 ..< n'}"
          using c0 s by blast
        moreover have "addrs (PDict c kvs') = insert c (value_addrs kvs')"
          by (simp add: value_addrs_def)
        ultimately have a: "addrs (PDict c kvs') \<subseteq> {?n0 ..< n'}"
          by simp
        have "wf_state st'"
          using d1 unfolding r wf_state_def by simp
        then show ?thesis
          using f1 g1 a unfolding r by simp
      qed
    qed
  qed
qed

lemma deepcopy_default_value:
  "erase (fst (deepcopy [] DEFAULT_CONFIG n)) = erase DEFAULT_CONFIG"
  by (simp add: DEFAULT_CONFIG_def)

lemma load_config_raises:
  assumes "read_json E (case p of None \<Rightarrow> default_config_path E | Some q \<Rightarrow> q) = Raises e"
  shows "fst (load_config E p st)
     = (if caught e then Inr (fst (deepcopy [] (default_config st) (next_addr st))) else Inl e)"
  using assms by (simp add: load_config_def Let_def split: prod.splits)

text \<open>
  A mutation is seen through every reference: had a result shared the list at address
  \<open>0\<close> with \<open>DEFAULT_CONFIG\<close>, changing it would have changed \<open>DEFAULT_CONFIG\<close>.
\<close>

lemma poke_shared_object:
  "poke 0 (PList 0 [Atom (AStr (ustr ''INJECTED''))]) DEFAULT_CONFIG \<noteq> DEFAULT_CONFIG"
  by (simp add: DEFAULT_CONFIG_def ustr_def)

text \<open>
  C9. Two resolutions, one after the other, from a well-formed state (such as the
  state of the module once \<open>DEFAULT_CONFIG\<close> is bound) with any override files: each
  returns objects allocated by that call alone, so a mutation of any object reached by
  one result, a collection-valued field among them, changes neither the other result
  nor \<open>DEFAULT_CONFIG\<close>; and neither resolution changes \<open>DEFAULT_CONFIG\<close>. When
  the override file cannot be read, the result has the value of the defaults.
\<close>

theorem load_config_isolation:
  assumes "wf_state st0"
    and "load_config E1 p1 st0 = (Inr c1, st1)"
    and "load_config E2 p2 st1 = (Inr c2, st2)"
  shows "default_config st1 = default_config st0 \<and> default_config st2 = default_config st0
     \<and> addrs c1 \<inter> addrs c2 = {}
     \<and> addrs c1 \<inter> addrs (default_config st0) = {}
     \<and> addrs c2 \<inter> addrs (default_config st0) = {}
     \<and> (\<forall>a new. a \<in> addrs c1 \<longrightarrow>
           poke a new c2 = c2 \<and> poke a new (default_config st2) = default_config st2)
     \<and> (\<forall>a new. a \<in> addrs c2 \<longrightarrow>
           poke a new c1 = c1 \<and> poke a new (default_config st2) = default_config st2)
     \<and> (\<forall>e. default_config st0 = DEFAULT_CONFIG
            \<and> read_json E1 (case p1 of None \<Rightarrow> default_config_path E1 | Some q \<Rightarrow> q) = Raises e
           \<longrightarrow> erase c1 = erase DEFAULT_CONFIG)"
proof -
  have r1: "default_config st1 = default_config st0" "next_addr st0 \<le> next_addr st1"
      "wf_state st1" "addrs c1 \<subseteq> {next_addr st0 ..< next_addr st1}"
    using load_config_frame [OF assms(1,2)] by simp_all
  have r2: "default_config st2 = default_config st1" "next_addr st1 \<le> next_addr st2"
      "addrs c2 \<subseteq> {next_addr st1 ..< next_addr st2}"
    using load_config_frame [OF r1(3) assms(3)] by simp_all
  have d: "addrs (default_config st0) \<subseteq> {..< next_addr st0}"
    using assms(1) by (simp add: wf_state_def)
  have i12: "addrs c1 \<inter> addrs c2 = {}"
    using r1(4) r2(3) by fastforce
  have i1d: "addrs c1 \<inter> addrs (default_config st0) = {}"
    using r1(4) d by fastforce
  have i2d: "addrs c2 \<inter> addrs (default_config st0) = {}"
    using r2(3) d r1(2) by fastforce
  have p1: "\<forall>a new. a \<in> addrs c1 \<longrightarrow>
      poke a new c2 = c2 \<and> poke a new (default_config st2) = default_config st2"
  proof (intro allI impI)
    fix a new
    assume "a \<in> addrs c1"
    then have "a \<notin> addrs c2" "a \<notin> addrs (default_config st2)"
      using i12 i1d r1(1) r2(1) by auto
    then show "poke a new c2 = c2 \<and> poke a new (default_config st2) = default_config st2"
      by (simp add: poke_unreached)
  qed
  have p2: "\<forall>a new. a \<in> addrs c2 \<longrightarrow>
      poke a new c1 = c1 \<and> poke a new (default_config st2) = default_config st2"
  proof (intro allI impI)
    fix a new
    assume "a \<in> addrs c2"
    then have "a \<notin> addrs c1" "a \<notin> addrs (default_config st2)"
      using i12 i2d r1(1) r2(1) by auto
    then show "poke a new c1 = c1 \<and> poke a new (default_config st2) = default_config st2"
      by (simp add: poke_unreached)
  qed
  have v: "\<forall>e. default_config st0 = DEFAULT_CONFIG
      \<and> read_json E1 (case p1 of None \<Rightarrow> default_config_path E1 | Some q \<Rightarrow> q) = Raises e
      \<longrightarrow> erase c1 = erase DEFAULT_CONFIG"
  proof (intro allI impI)
    fix e
    assume a: "default_config st0 = DEFAULT_CONFIG
      \<and> read_json E1 (case p1 of None \<Rightarrow> default_config_path E1 | Some q \<Rightarrow> q) = Raises e"
    then have "fst (load_config E1 p1 st0)
        = (if caught e then Inr (fst (deepcopy [] DEFAULT_CONFIG (next_addr st0))) else Inl e)"
      using load_config_raises [of E1 p1 e st0] by simp
    then have "c1 = fst (deepcopy [] DEFAULT_CONFIG (next_addr st0))"
      using assms(2) by (simp split: if_splits)
    then show "erase c1 = erase DEFAULT_CONFIG"
      by (simp add: deepcopy_default_value)
  qed
  show ?thesis
    using r1(1) r2(1) i12 i1d i2d p1 p2 v by simp
qed

theorem load_config_isolation_witness:
  "wf_state module_state
   \<and> load_config \<lparr>read_json = (\<lambda>p. Raises FileNotFoundError), script_dir = ustr ''/opt''\<rparr>
        (Some (ustr ''/nonexistent/path.json'')) module_state
     = (Inr (fst (deepcopy [] DEFAULT_CONFIG 9)), \<lparr>next_addr = 18, default_config = DEFAULT_CONFIG\<rparr>)
   \<and> load_config \<lparr>read_json = (\<lambda>p. Raises FileNotFoundError), script_dir = ustr ''/opt''\<rparr>
        (Some (ustr ''/nonexistent/path.json'')) \<lparr>next_addr = 18, default_config = DEFAULT_CONFIG\<rparr>
     = (Inr (fst (deepcopy [] DEFAULT_CONFIG 18)), \<lparr>next_addr = 27, default_config = DEFAULT_CONFIG\<rparr>)
   \<and> 10 \<in> addrs (fst (deepcopy [] DEFAULT_CONFIG 9))
   \<and> poke 10 (PList 10 [Atom (AStr (ustr ''INJECTED''))]) (fst (deepcopy [] DEFAULT_CONFIG 18))
     = fst (deepcopy [] DEFAULT_CONFIG 18)
   \<and> poke 10 (PList 10 [Atom (AStr (ustr ''INJECTED''))]) DEFAULT_CONFIG = DEFAULT_CONFIG"
proof -
  let ?E = "\<lparr>read_json = (\<lambda>p. Raises FileNotFoundError), script_dir = ustr ''/opt''\<rparr>"
  let ?p = "Some (ustr ''/nonexistent/path.json'')"
  let ?st1 = "\<lparr>next_addr = 18, default_config = DEFAULT_CONFIG\<rparr>"
  let ?st2 = "\<lparr>next_addr = 27, default_config = DEFAULT_CONFIG\<rparr>"
  have w: "wf_state module_state"
    by (simp add: wf_state_def module_state_def DEFAULT_CONFIG_def)
  have l1: "load_config ?E ?p module_state = (Inr (fst (deepcopy [] DEFAULT_CONFIG 9)), ?st1)"
    by (simp add: load_config_def module_state_def caught_def DEFAULT_CONFIG_def)
  have l2: "load_config ?E ?p ?st1 = (Inr (fst (deepcopy [] DEFAULT_CONFIG 18)), ?st2)"
    by (simp add: load_config_def caught_def DEFAULT_CONFIG_def)
  have a: "10 \<in> addrs (fst (deepcopy [] DEFAULT_CONFIG 9))"
    by (simp add: DEFAULT_CONFIG_def)
  have iso: "\<forall>a new. a \<in> addrs (fst (deepcopy [] DEFAULT_CONFIG 9)) \<longrightarrow>
      poke a new (fst (deepcopy [] DEFAULT_CONFIG 18)) = fst (deepcopy [] DEFAULT_CONFIG 18)
      \<and> poke a new (default_config ?st2) = default_config ?st2"
    using load_config_isolation [OF w l1 l2] by blast
  have "poke 10 (PList 10 [Atom (AStr (ustr ''INJECTED''))]) (fst (deepcopy [] DEFAULT_CONFIG 18))
      = fst (deepcopy [] DEFAULT_CONFIG 18)
    \<and> poke 10 (PList 10 [Atom (AStr (ustr ''INJECTED''))]) DEFAULT_CONFIG = DEFAULT_CONFIG"
    using iso a by simp
  then show ?thesis
    using w l1 l2 a by blast
qed

lemma load_config_fallback:
  assumes "read_json E (case p of None \<Rightarrow> default_config_path E | Some q \<Rightarrow> q) = Raises e"
    and "caught e" and "default_config st = DEFAULT_CONFIG"
  shows "\<exists>c st'. load_config E p st = (Inr c, st') \<and> erase c = erase DEFAULT_CONFIG"
proof -
  obtain cfg memo n where dc: "deepcopy [] DEFAULT_CONFIG (next_addr st) = (cfg, memo, n)"
    by (cases "deepcopy [] DEFAULT_CONFIG (next_addr st)") auto
  have "load_config E p st = (Inr cfg, st\<lparr>next_addr := n\<rparr>)"
    using assms dc by (simp add: load_config_def Let_def)
  moreover have "erase cfg = erase DEFAULT_CONFIG"
    using deepcopy_default_value [of "next_addr st"] dc by simp
  ultimately show ?thesis by blast
qed

text \<open>
  C4 on the code: an override file that holds the JSON document \<open>[1, 2]\<close> makes the
  resolver raise \<open>TypeError\<close>, a file that is no UTF-8 text makes it raise
  \<open>UnicodeDecodeError\<close>; with no override given and no file beside the script it
  returns a copy of the defaults.
\<close>

theorem load_config_raises_on_malformed:
  "fst (load_config
      \<lparr>read_json = (\<lambda>p. if p = ustr ''bad.json'' then Parsed (JArr [JNum 1, JNum 2])
                         else Raises FileNotFoundError),
        script_dir = ustr ''/opt''\<rparr>
      (Some (ustr ''bad.json'')) module_state) = Inl TypeError
   \<and> fst (load_config
      \<lparr>read_json = (\<lambda>p. if p = ustr ''bad.json'' then Raises UnicodeDecodeError
                         else Raises FileNotFoundError),
        script_dir = ustr ''/opt''\<rparr>
      (Some (ustr ''bad.json'')) module_state) = Inl UnicodeDecodeError
   \<and> fst (load_config
      \<lparr>read_json = (\<lambda>p. if p = ustr ''bad.json'' then Parsed (JArr [JNum 1, JNum 2])
                         else Raises FileNotFoundError),
        script_dir = ustr ''/opt''\<rparr>
      None module_state) = Inr (fst (deepcopy [] DEFAULT_CONFIG 9))"
  by (simp add: load_config_def module_state_def caught_def DEFAULT_CONFIG_def dict_update_def
      update_pair_def default_config_path_def ustr_def)

end
